theory Spec2Isabelle
  imports Main "HOL-Library.Word" "HOL-Library.Multiset"
begin

unbundle bit_operations_syntax

section \<open>Moore automata (ma.c): data model\<close>

text \<open>
  The embedding follows \<^verbatim>\<open>ma.c\<close> under the LP64 data model of its build files
  (gcc, shared object): \<^verbatim>\<open>size_t\<close> and \<^verbatim>\<open>uint64_t\<close> have 64 bits, \<^verbatim>\<open>int\<close> and
  \<^verbatim>\<open>uint32_t\<close> have 32 bits. A \<^verbatim>\<open>size_t\<close> is a \<open>nat\<close> with the wrap-around written
  out where the code computes with it; a \<^verbatim>\<open>uint64_t\<close> is a \<open>64 word\<close>; an \<^verbatim>\<open>int\<close> is
  an \<open>int\<close> obtained from a 32-bit word.

  A \<^verbatim>\<open>moore_t *\<close> is an address or NULL (\<open>None\<close>). The heap maps an address to the
  object allocated there. Every buffer of an automaton is allocated by
  \<^verbatim>\<open>ma_create_full\<close> for this automaton alone and no function hands a buffer to another
  automaton, so a buffer is kept inside the record that owns the pointer to it: \<open>None\<close> is
  the NULL pointer, \<open>Some ws\<close> a buffer with contents \<open>ws\<close>.

  The result \<open>None\<close> of an operation stands for undefined behaviour of the C program
  (access through an unallocated or freed pointer, out-of-bounds indexing).
\<close>

type_synonym u64 = "64 word"
type_synonym addr = nat
type_synonym ptr = "addr option"
type_synonym buf = "u64 list option"

datatype errno = EINVAL | ENOMEM

definition SIZE_MAX :: nat where
  "SIZE_MAX = 2 ^ 64 - 1"

definition size_add :: "nat \<Rightarrow> nat \<Rightarrow> nat" where
  "size_add a b = (a + b) mod 2 ^ 64"

definition size_mul :: "nat \<Rightarrow> nat \<Rightarrow> nat" where
  "size_mul a b = (a * b) mod 2 ^ 64"

definition INIT_CONNECTION_CAPACITY :: nat where
  "INIT_CONNECTION_CAPACITY = 8"

definition MOORE_MAGIC :: "32 word" where
  "MOORE_MAGIC = 0xDEADBEEF"

definition MOORE_DELETED :: "32 word" where
  "MOORE_DELETED = 0x00000000"

text \<open>
  \<^verbatim>\<open>transition_function_t\<close> and \<^verbatim>\<open>output_function_t\<close> write into the buffer they
  get as first argument. The model passes them the old contents of that buffer and takes the
  new contents as result. The input pointer of a transition is NULL for an automaton
  without inputs.
\<close>

type_synonym transition_function_t = "u64 list \<Rightarrow> buf \<Rightarrow> u64 list \<Rightarrow> nat \<Rightarrow> nat \<Rightarrow> u64 list"
type_synonym output_function_t = "u64 list \<Rightarrow> u64 list \<Rightarrow> nat \<Rightarrow> nat \<Rightarrow> u64 list"

record input_connection_info =
  source_automaton :: ptr
  source_output_index :: nat

record moore =
  ma_n :: nat
  ma_m :: nat
  ma_s :: nat
  ma_t :: transition_function_t
  ma_y :: output_function_t
  magic :: "32 word"
  state :: buf
  next_state :: buf
  "output" :: buf
  manual_input :: buf
  final_input :: buf
  incoming_connections :: "input_connection_info list option"
  connected_to_me :: "ptr list option"
  connected_to_me_count :: nat
  connected_to_me_capacity :: nat

text \<open>
  A heap cell is an automaton, or the memory of an automaton that \<^verbatim>\<open>free\<close> has
  released. The code stores \<^verbatim>\<open>MOORE_DELETED\<close> in the \<^verbatim>\<open>magic\<close> field just before
  it frees the structure and tests that field through every reference that may be stale.
  Between the store and the call of \<^verbatim>\<open>free\<close> the cell is an automaton with that tag;
  after \<^verbatim>\<open>free\<close> every access to the cell is undefined, the read of \<^verbatim>\<open>magic\<close>
  included.
\<close>

datatype cell = Freed | Obj moore

type_synonym store = "addr \<Rightarrow> cell option"

definition read_magic :: "store \<Rightarrow> addr \<Rightarrow> 32 word option" where
  "read_magic st p =
     (case st p of
        None \<Rightarrow> None
      | Some Freed \<Rightarrow> None
      | Some (Obj a) \<Rightarrow> Some (magic a))"

definition deref :: "store \<Rightarrow> addr \<Rightarrow> moore option" where
  "deref st p = (case st p of Some (Obj a) \<Rightarrow> Some a | _ \<Rightarrow> None)"

text \<open>Indexing a C array with an \<^verbatim>\<open>int\<close>: outside the array the access is undefined.\<close>

definition rd :: "'a list \<Rightarrow> int \<Rightarrow> 'a option" where
  "rd xs k = (if 0 \<le> k \<and> nat k < length xs then Some (xs ! nat k) else None)"

definition wr :: "'a list \<Rightarrow> int \<Rightarrow> 'a \<Rightarrow> 'a list option" where
  "wr xs k v = (if 0 \<le> k \<and> nat k < length xs then Some (xs[nat k := v]) else None)"

text \<open>\<^verbatim>\<open>memcpy(dst, src, k * sizeof(uint64_t))\<close>.\<close>

definition memcpy_words :: "u64 list \<Rightarrow> u64 list \<Rightarrow> nat \<Rightarrow> u64 list option" where
  "memcpy_words dst src k =
     (if k \<le> length dst \<and> k \<le> length src then Some (take k src @ drop k dst) else None)"

text \<open>The number of words of a buffer of \<open>k\<close> bits, \<^verbatim>\<open>(k + 63) / 64\<close> on \<^verbatim>\<open>size_t\<close>.\<close>

definition n_words :: "nat \<Rightarrow> nat" where
  "n_words k = size_add k 63 div 64"

text \<open>Bit \<open>i\<close> of a packed buffer lives at word \<open>i div 64\<close>, bit \<open>i mod 64\<close>.\<close>

definition get_bit :: "u64 list \<Rightarrow> nat \<Rightarrow> bool" where
  "get_bit ws i = bit (ws ! (i div 64)) (i mod 64)"

section \<open>Input merge and the step engine\<close>

text \<open>\<^verbatim>\<open>bit_word\<close> and \<^verbatim>\<open>bit_pos\<close> return \<^verbatim>\<open>int\<close>: the cast keeps the low 32 bits.\<close>

definition bit_word :: "nat \<Rightarrow> int" where
  "bit_word idx = sint (word_of_nat (idx div 64) :: 32 word)"

definition bit_pos :: "nat \<Rightarrow> int" where
  "bit_pos idx = sint (word_of_nat (idx mod 64) :: 32 word)"

text \<open>
  The value that one iteration of the loop of \<^verbatim>\<open>update_final_input\<close> computes for
  input \<open>i\<close> of the automaton \<open>a\<close>.
\<close>

definition manual_value :: "moore \<Rightarrow> nat \<Rightarrow> u64 option" where
  "manual_value a i =
     (case manual_input a of
        None \<Rightarrow> None
      | Some mi \<Rightarrow>
          (case rd mi (bit_word i) of
             None \<Rightarrow> None
           | Some x \<Rightarrow> Some (drop_bit (nat (bit_pos i)) x AND 1)))"

definition input_value :: "store \<Rightarrow> moore \<Rightarrow> nat \<Rightarrow> u64 option" where
  "input_value st a i =
     (case incoming_connections a of
        None \<Rightarrow> None
      | Some ic \<Rightarrow>
          if i < length ic then
            (case source_automaton (ic ! i) of
               None \<Rightarrow> manual_value a i
             | Some q \<Rightarrow>
                 (case read_magic st q of
                    None \<Rightarrow> None
                  | Some mg \<Rightarrow>
                      if mg = MOORE_MAGIC then
                        (case st q of
                           Some (Obj src) \<Rightarrow>
                             (case output src of
                                None \<Rightarrow> manual_value a i
                              | Some out \<Rightarrow>
                                  let src_idx = source_output_index (ic ! i) in
                                  if src_idx < ma_m src then
                                    (case rd out (bit_word src_idx) of
                                       None \<Rightarrow> None
                                     | Some x \<Rightarrow> Some (drop_bit (nat (bit_pos src_idx)) x AND 1))
                                  else manual_value a i)
                         | _ \<Rightarrow> None)
                      else manual_value a i))
          else None)"

text \<open>One iteration: compute the value, then set the bit in \<^verbatim>\<open>final_input\<close> if it is 1.\<close>

definition ufi_iter :: "store \<Rightarrow> addr \<Rightarrow> nat \<Rightarrow> store option" where
  "ufi_iter st p i =
     (case st p of
        Some (Obj a) \<Rightarrow>
          (case input_value st a i of
             None \<Rightarrow> None
           | Some v \<Rightarrow>
               if v \<noteq> 0 then
                 (case final_input a of
                    None \<Rightarrow> None
                  | Some fi \<Rightarrow>
                      (case rd fi (bit_word i) of
                         None \<Rightarrow> None
                       | Some x \<Rightarrow>
                           (case wr fi (bit_word i) (x OR push_bit (nat (bit_pos i)) 1) of
                              None \<Rightarrow> None
                            | Some fi' \<Rightarrow> Some (st(p \<mapsto> Obj (a\<lparr>final_input := Some fi'\<rparr>))))))
               else Some st)
      | _ \<Rightarrow> None)"

text \<open>The loop \<^verbatim>\<open>for (i = 0; i < a->n; i++)\<close>, entered at \<open>i\<close>, on at most \<open>k\<close> more inputs.\<close>

fun ufi_loop :: "nat \<Rightarrow> store \<Rightarrow> addr \<Rightarrow> nat \<Rightarrow> store option" where
  "ufi_loop 0 st p i = Some st"
| "ufi_loop (Suc k) st p i =
     (case ufi_iter st p i of
        None \<Rightarrow> None
      | Some st' \<Rightarrow> ufi_loop k st' p (Suc i))"

definition update_final_input :: "store \<Rightarrow> ptr \<Rightarrow> store option" where
  "update_final_input st a =
     (case a of
        None \<Rightarrow> Some st
      | Some p \<Rightarrow>
          (case st p of
             Some (Obj x) \<Rightarrow>
               if ma_n x = 0 \<or> final_input x = None \<or> manual_input x = None
                  \<or> incoming_connections x = None
               then Some st
               else
                 (case final_input x of
                    None \<Rightarrow> Some st
                  | Some fi \<Rightarrow>
                      if n_words (ma_n x) \<le> length fi then
                        ufi_loop (ma_n x)
                          (st(p \<mapsto> Obj (x\<lparr>final_input :=
                              Some (replicate (n_words (ma_n x)) 0 @ drop (n_words (ma_n x)) fi)\<rparr>)))
                          p 0
                      else None)
           | _ \<Rightarrow> None))"

text \<open>
  The three loops of \<^verbatim>\<open>ma_step\<close> over the array \<^verbatim>\<open>at\<close>. The first one returns at
  the first NULL element (result \<open>False\<close>), after it has updated the automata before it.
\<close>

fun step_inputs :: "store \<Rightarrow> ptr list \<Rightarrow> (bool \<times> store) option" where
  "step_inputs st [] = Some (True, st)"
| "step_inputs st (None # ps) = Some (False, st)"
| "step_inputs st (Some p # ps) =
     (case update_final_input st (Some p) of
        None \<Rightarrow> None
      | Some st' \<Rightarrow> step_inputs st' ps)"

definition do_transition :: "store \<Rightarrow> ptr \<Rightarrow> store option" where
  "do_transition st a =
     (case a of
        None \<Rightarrow> None
      | Some p \<Rightarrow>
          (case st p of
             Some (Obj x) \<Rightarrow>
               (case next_state x of
                  None \<Rightarrow> None
                | Some ns \<Rightarrow>
                    (case state x of
                       None \<Rightarrow> None
                     | Some cs \<Rightarrow>
                         Some (st(p \<mapsto> Obj (x\<lparr>next_state :=
                           Some (ma_t x ns (final_input x) cs (ma_n x) (ma_s x))\<rparr>)))))
           | _ \<Rightarrow> None))"

fun step_transitions :: "store \<Rightarrow> ptr list \<Rightarrow> store option" where
  "step_transitions st [] = Some st"
| "step_transitions st (a # ps) =
     (case do_transition st a of
        None \<Rightarrow> None
      | Some st' \<Rightarrow> step_transitions st' ps)"

definition do_commit :: "store \<Rightarrow> ptr \<Rightarrow> store option" where
  "do_commit st a =
     (case a of
        None \<Rightarrow> None
      | Some p \<Rightarrow>
          (case st p of
             Some (Obj x) \<Rightarrow>
               (let x' = x\<lparr>state := next_state x, next_state := state x\<rparr> in
                (case output x' of
                   None \<Rightarrow> None
                 | Some out \<Rightarrow>
                     (case state x' of
                        None \<Rightarrow> None
                      | Some cs \<Rightarrow>
                          Some (st(p \<mapsto> Obj (x'\<lparr>output :=
                            Some (ma_y x' out cs (ma_m x') (ma_s x'))\<rparr>))))))
           | _ \<Rightarrow> None))"

fun step_commit :: "store \<Rightarrow> ptr list \<Rightarrow> store option" where
  "step_commit st [] = Some st"
| "step_commit st (a # ps) =
     (case do_commit st a of
        None \<Rightarrow> None
      | Some st' \<Rightarrow> step_commit st' ps)"

text \<open>
  \<^verbatim>\<open>ma_step(at, num)\<close>: the array is NULL (\<open>None\<close>) or a list of \<open>num\<close> pointers.
  The result is \<open>Inr ()\<close> for the return value 0 and \<open>Inl e\<close> for -1 with \<^verbatim>\<open>errno = e\<close>.
\<close>

definition ma_step :: "store \<Rightarrow> ptr list option \<Rightarrow> ((errno + unit) \<times> store) option" where
  "ma_step st at =
     (case at of
        None \<Rightarrow> Some (Inl EINVAL, st)
      | Some ps \<Rightarrow>
          if length ps = 0 then Some (Inl EINVAL, st)
          else
            (case step_inputs st ps of
               None \<Rightarrow> None
             | Some (False, st1) \<Rightarrow> Some (Inl EINVAL, st1)
             | Some (True, st1) \<Rightarrow>
                 (case step_transitions st1 ps of
                    None \<Rightarrow> None
                  | Some st2 \<Rightarrow>
                      (case step_commit st2 ps of
                         None \<Rightarrow> None
                       | Some st3 \<Rightarrow> Some (Inr (), st3)))))"

section \<open>Manual signal control\<close>

definition ma_set_input :: "store \<Rightarrow> ptr \<Rightarrow> buf \<Rightarrow> ((errno + unit) \<times> store) option" where
  "ma_set_input st a input =
     (case a of
        None \<Rightarrow> Some (Inl EINVAL, st)
      | Some p \<Rightarrow>
          (case input of
             None \<Rightarrow> Some (Inl EINVAL, st)
           | Some ws \<Rightarrow>
               (case st p of
                  Some (Obj x) \<Rightarrow>
                    if ma_n x = 0 then Some (Inl EINVAL, st)
                    else
                      (case manual_input x of
                         None \<Rightarrow> None
                       | Some mi \<Rightarrow>
                           (case memcpy_words mi ws (n_words (ma_n x)) of
                              None \<Rightarrow> None
                            | Some mi' \<Rightarrow>
                                Some (Inr (), st(p \<mapsto> Obj (x\<lparr>manual_input := Some mi'\<rparr>)))))
                | _ \<Rightarrow> None)))"

definition ma_set_state :: "store \<Rightarrow> ptr \<Rightarrow> buf \<Rightarrow> ((errno + unit) \<times> store) option" where
  "ma_set_state st a new_state =
     (case a of
        None \<Rightarrow> Some (Inl EINVAL, st)
      | Some p \<Rightarrow>
          (case new_state of
             None \<Rightarrow> Some (Inl EINVAL, st)
           | Some ws \<Rightarrow>
               (case st p of
                  Some (Obj x) \<Rightarrow>
                    (case state x of
                       None \<Rightarrow> None
                     | Some cs \<Rightarrow>
                         (case memcpy_words cs ws (n_words (ma_s x)) of
                            None \<Rightarrow> None
                          | Some cs' \<Rightarrow>
                              (case output x of
                                 None \<Rightarrow> None
                               | Some out \<Rightarrow>
                                   Some (Inr (), st(p \<mapsto> Obj (x\<lparr>state := Some cs',
                                     output := Some (ma_y x out cs' (ma_m x) (ma_s x))\<rparr>))))))
                | _ \<Rightarrow> None)))"

text \<open>\<^verbatim>\<open>ma_get_output\<close> returns the pointer \<^verbatim>\<open>a->output\<close>, here the buffer it points to.\<close>

definition ma_get_output :: "store \<Rightarrow> ptr \<Rightarrow> (errno + buf) option" where
  "ma_get_output st a =
     (case a of
        None \<Rightarrow> Some (Inl EINVAL)
      | Some p \<Rightarrow>
          (case st p of
             Some (Obj x) \<Rightarrow> Some (Inr (output x))
           | _ \<Rightarrow> None))"

section \<open>Construction\<close>

text \<open>
  The allocator is a parameter: \<open>new\<close> is what \<^verbatim>\<open>calloc\<close> returns for the structure
  (NULL, or an address that holds no automaton: fresh memory or memory that has been freed), and \<open>ok k\<close> tells whether the \<open>k\<close>-th buffer
  allocation succeeds, the buffers counted in the order of the source: \<^verbatim>\<open>manual_input\<close>,
  \<^verbatim>\<open>final_input\<close>, \<^verbatim>\<open>incoming_connections\<close>, \<^verbatim>\<open>state\<close>, \<^verbatim>\<open>next_state\<close>,
  \<^verbatim>\<open>output\<close>, \<^verbatim>\<open>connected_to_me\<close>. \<^verbatim>\<open>sizeof(uint64_t)\<close> is 8 and
  \<^verbatim>\<open>sizeof(input_connection_info)\<close> is 16. A structure that is released on the failure
  path is a freed cell.
\<close>

definition empty_connection :: input_connection_info where
  "empty_connection = \<lparr>source_automaton = None, source_output_index = 0\<rparr>"

definition ma_create_full ::
  "store \<Rightarrow> ptr \<Rightarrow> (nat \<Rightarrow> bool) \<Rightarrow> nat \<Rightarrow> nat \<Rightarrow> nat \<Rightarrow> transition_function_t option \<Rightarrow>
   output_function_t option \<Rightarrow> buf \<Rightarrow> ((errno + addr) \<times> store) option" where
  "ma_create_full st new ok n m s t y q =
     (case t of
        None \<Rightarrow> Some (Inl EINVAL, st)
      | Some tf \<Rightarrow>
     (case y of
        None \<Rightarrow> Some (Inl EINVAL, st)
      | Some yf \<Rightarrow>
     (case q of
        None \<Rightarrow> Some (Inl EINVAL, st)
      | Some qs \<Rightarrow>
          if m = 0 \<or> s = 0 then Some (Inl EINVAL, st)
          else
            (let n_elements = (if n > 0 then n_words n else 0);
                 m_elements = n_words m;
                 s_elements = n_words s
             in
               if n > SIZE_MAX div 64 \<or> m > SIZE_MAX div 64 \<or> s > SIZE_MAX div 64
               then Some (Inl ENOMEM, st)
               else if n_elements > SIZE_MAX div 8 \<or> m_elements > SIZE_MAX div 8
                       \<or> s_elements > SIZE_MAX div 8 \<or> n > SIZE_MAX div 16
               then Some (Inl ENOMEM, st)
               else
                 (case new of
                    None \<Rightarrow> Some (Inl ENOMEM, st)
                  | Some p \<Rightarrow>
                      if n > 0 \<and> \<not> ok 0 then Some (Inl ENOMEM, st(p \<mapsto> Freed))
                      else if n > 0 \<and> \<not> ok 1 then Some (Inl ENOMEM, st(p \<mapsto> Freed))
                      else if n > 0 \<and> \<not> ok 2 then Some (Inl ENOMEM, st(p \<mapsto> Freed))
                      else if \<not> ok 3 then Some (Inl ENOMEM, st(p \<mapsto> Freed))
                      else if \<not> ok 4 then Some (Inl ENOMEM, st(p \<mapsto> Freed))
                      else if \<not> ok 5 then Some (Inl ENOMEM, st(p \<mapsto> Freed))
                      else if \<not> ok 6 then Some (Inl ENOMEM, st(p \<mapsto> Freed))
                      else
                        (case memcpy_words (replicate s_elements 0) qs s_elements of
                           None \<Rightarrow> None
                         | Some cs \<Rightarrow>
                             Some (Inr p, st(p \<mapsto> Obj
                               \<lparr>ma_n = n, ma_m = m, ma_s = s, ma_t = tf, ma_y = yf,
                                magic = MOORE_MAGIC,
                                state = Some cs,
                                next_state = Some (replicate s_elements 0),
                                output = Some (yf (replicate m_elements 0) cs m s),
                                manual_input =
                                  (if n > 0 then Some (replicate n_elements 0) else None),
                                final_input =
                                  (if n > 0 then Some (replicate n_elements 0) else None),
                                incoming_connections =
                                  (if n > 0 then Some (replicate n empty_connection) else None),
                                connected_to_me =
                                  Some (replicate INIT_CONNECTION_CAPACITY None),
                                connected_to_me_count = 0,
                                connected_to_me_capacity = INIT_CONNECTION_CAPACITY\<rparr>))))))))"

text \<open>
  \<^verbatim>\<open>identity_func\<close>: the copy is \<^verbatim>\<open>memcpy(output, state, elements_to_copy * 8)\<close>, then
  the unused bits of the last word are cleared. For other widths the buffer stays as it is.
  When \<^verbatim>\<open>s + 63\<close> wraps around, \<^verbatim>\<open>elements_to_copy\<close> is 0 and the code masks
  \<^verbatim>\<open>output[SIZE_MAX]\<close>, a word outside the buffer, which is undefined in C; no word of
  the buffer is written then and the function returns the buffer as it is. The
  constructor refuses those widths (\<^verbatim>\<open>s > SIZE_MAX / 64\<close>), so that no automaton calls
  the function there.
\<close>

definition identity_func :: output_function_t where
  "identity_func out st m s =
     (if m = s \<and> s > 0 then
        (let elements_to_copy = n_words s;
             out1 = take elements_to_copy st @ drop elements_to_copy out;
             used_bits = s mod 64
         in
           if used_bits \<noteq> 0 \<and> 0 < elements_to_copy then
             out1[elements_to_copy - 1 :=
               (out1 ! (elements_to_copy - 1)) AND (push_bit used_bits 1 - 1)]
           else out1)
      else out)"

text \<open>\<open>q_ok\<close> tells whether the allocation of the zeroed initial state succeeds.\<close>

definition ma_create_simple ::
  "store \<Rightarrow> bool \<Rightarrow> ptr \<Rightarrow> (nat \<Rightarrow> bool) \<Rightarrow> nat \<Rightarrow> nat \<Rightarrow> transition_function_t option \<Rightarrow>
   ((errno + addr) \<times> store) option" where
  "ma_create_simple st q_ok new ok n s t =
     (if s = 0 \<or> t = None then Some (Inl EINVAL, st)
      else if s > 0 \<and> \<not> q_ok then Some (Inl ENOMEM, st)
      else ma_create_full st new ok n s s t (Some identity_func)
             (Some (replicate (n_words s) 0)))"

section \<open>Connection management\<close>

text \<open>
  \<^verbatim>\<open>append_to_connected_list\<close>: \<open>realloc_ok\<close> tells whether \<^verbatim>\<open>realloc\<close> succeeds when
  the array is full. The cells that \<^verbatim>\<open>realloc\<close> adds are written before they are read;
  the model fills them with NULL. \<^verbatim>\<open>sizeof(moore_t *)\<close> is 8.
\<close>

definition append_to_connected_list ::
  "store \<Rightarrow> bool \<Rightarrow> addr \<Rightarrow> addr \<Rightarrow> ((errno + unit) \<times> store) option" where
  "append_to_connected_list st realloc_ok a_out a_in =
     (case st a_out of
        Some (Obj x) \<Rightarrow>
          (let arr = (case connected_to_me x of None \<Rightarrow> [] | Some l \<Rightarrow> l);
               cnt = connected_to_me_count x;
               cap = connected_to_me_capacity x
           in
             if Some a_in \<in> set (take cnt arr) then Some (Inr (), st)
             else if cnt > length arr then None
             else if cnt = cap \<and> \<not> realloc_ok then Some (Inl ENOMEM, st)
             else
               (let new_capacity = (if cap = 0 then 8 else size_mul cap 2);
                    cells = size_mul new_capacity 8 div 8;
                    arr1 = (if cnt = cap
                            then take cells arr @ replicate (cells - length arr) None
                            else arr);
                    cap1 = (if cnt = cap then new_capacity else cap)
                in
                  if cnt < length arr1 then
                    Some (Inr (), st(a_out \<mapsto> Obj (x\<lparr>connected_to_me := Some (arr1[cnt := Some a_in]),
                      connected_to_me_count := size_add cnt 1,
                      connected_to_me_capacity := cap1\<rparr>)))
                  else None))
      | _ \<Rightarrow> None)"

text \<open>The loop of \<^verbatim>\<open>ma_connect\<close> that writes the slots \<open>in_index + i\<close> for \<open>i < num\<close>.\<close>

definition connect_slots ::
  "input_connection_info list \<Rightarrow> nat \<Rightarrow> addr \<Rightarrow> nat \<Rightarrow> nat \<Rightarrow> input_connection_info list" where
  "connect_slots ic in_index a_out out_index num =
     fold (\<lambda>i c. c[in_index + i :=
             \<lparr>source_automaton = Some a_out, source_output_index = out_index + i\<rparr>])
       [0..<num] ic"

definition ma_connect ::
  "store \<Rightarrow> bool \<Rightarrow> ptr \<Rightarrow> nat \<Rightarrow> ptr \<Rightarrow> nat \<Rightarrow> nat \<Rightarrow> ((errno + unit) \<times> store) option" where
  "ma_connect st realloc_ok a_in in_index a_out out_index num =
     (case a_in of
        None \<Rightarrow> Some (Inl EINVAL, st)
      | Some pi \<Rightarrow>
     (case a_out of
        None \<Rightarrow> Some (Inl EINVAL, st)
      | Some po \<Rightarrow>
          if num = 0 then Some (Inl EINVAL, st)
          else
            (case st pi of
               Some (Obj x) \<Rightarrow>
                 (case st po of
                    Some (Obj z) \<Rightarrow>
                      if in_index \<ge> ma_n x \<or> out_index \<ge> ma_m z
                         \<or> num > ma_n x - in_index \<or> num > ma_m z - out_index
                      then Some (Inl EINVAL, st)
                      else
                        (case incoming_connections x of
                           None \<Rightarrow> None
                         | Some ic \<Rightarrow>
                             if in_index + num \<le> length ic then
                               append_to_connected_list
                                 (st(pi \<mapsto> Obj (x\<lparr>incoming_connections :=
                                    Some (connect_slots ic in_index po out_index num)\<rparr>)))
                                 realloc_ok po pi
                             else None)
                  | _ \<Rightarrow> None)
             | _ \<Rightarrow> None)))"

text \<open>
  \<^verbatim>\<open>remove_connected(a_in, a_out)\<close>: the compaction loop reads cell \<open>i\<close> and writes cell
  \<open>j \<le> i\<close>; \<open>k\<close> counts the cells that are left to read.
\<close>

fun remove_loop :: "nat \<Rightarrow> ptr \<Rightarrow> nat \<Rightarrow> nat \<Rightarrow> ptr list \<Rightarrow> nat \<times> ptr list" where
  "remove_loop 0 x i j arr = (j, arr)"
| "remove_loop (Suc k) x i j arr =
     (if arr ! i \<noteq> None \<and> arr ! i \<noteq> x
      then remove_loop k x (Suc i) (Suc j) (arr[j := arr ! i])
      else remove_loop k x (Suc i) j arr)"

definition remove_connected :: "store \<Rightarrow> ptr \<Rightarrow> ptr \<Rightarrow> store option" where
  "remove_connected st a_in a_out =
     (case a_in of
        None \<Rightarrow> Some st
      | Some pi \<Rightarrow>
     (case a_out of
        None \<Rightarrow> Some st
      | Some po \<Rightarrow>
          (case st po of
             Some (Obj z) \<Rightarrow>
               (let arr = (case connected_to_me z of None \<Rightarrow> [] | Some l \<Rightarrow> l);
                    cnt = connected_to_me_count z
                in
                  if cnt \<le> length arr then
                    (case remove_loop cnt (Some pi) 0 0 arr of
                       (j, arr') \<Rightarrow>
                         Some (st(po \<mapsto> Obj (z\<lparr>connected_to_me :=
                                  map_option (\<lambda>_. arr') (connected_to_me z),
                                connected_to_me_count := j\<rparr>))))
                  else None)
           | _ \<Rightarrow> None)))"

text \<open>
  \<^verbatim>\<open>ma_disconnect\<close>. The first loop collects the distinct sources of the addressed slots
  in \<^verbatim>\<open>sources_to_remove\<close> and clears the slots; the second loop removes the automaton
  from the list of each collected source that no slot names any more. The array
  \<^verbatim>\<open>sources_to_remove[num]\<close> is a variable-length array on the stack: \<open>stack_ok k\<close>
  tells whether the stack has room for \<open>k\<close> pointers, and the call is undefined when it
  has not.
\<close>

definition collect_sources :: "input_connection_info list \<Rightarrow> nat \<Rightarrow> nat \<Rightarrow> ptr list" where
  "collect_sources ic in_index num =
     fold (\<lambda>i srcs.
             (case source_automaton (ic ! (in_index + i)) of
                None \<Rightarrow> srcs
              | Some q \<Rightarrow> if Some q \<in> set srcs then srcs else srcs @ [Some q]))
       [0..<num] []"

definition clear_slots :: "input_connection_info list \<Rightarrow> nat \<Rightarrow> nat \<Rightarrow> input_connection_info list" where
  "clear_slots ic in_index num = fold (\<lambda>i c. c[in_index + i := empty_connection]) [0..<num] ic"

fun disconnect_sources :: "store \<Rightarrow> addr \<Rightarrow> ptr list \<Rightarrow> store option" where
  "disconnect_sources st pi [] = Some st"
| "disconnect_sources st pi (src # srcs) =
     (case st pi of
        Some (Obj x) \<Rightarrow>
          (case incoming_connections x of
             None \<Rightarrow> None
           | Some ic \<Rightarrow>
               if ma_n x \<le> length ic then
                 (if src \<in> source_automaton ` set (take (ma_n x) ic)
                  then disconnect_sources st pi srcs
                  else
                    (case remove_connected st (Some pi) src of
                       None \<Rightarrow> None
                     | Some st' \<Rightarrow> disconnect_sources st' pi srcs))
               else None)
      | _ \<Rightarrow> None)"

definition ma_disconnect ::
  "store \<Rightarrow> (nat \<Rightarrow> bool) \<Rightarrow> ptr \<Rightarrow> nat \<Rightarrow> nat \<Rightarrow> ((errno + unit) \<times> store) option" where
  "ma_disconnect st stack_ok a_in in_index num =
     (case a_in of
        None \<Rightarrow> Some (Inl EINVAL, st)
      | Some pi \<Rightarrow>
          if num = 0 then Some (Inl EINVAL, st)
          else
            (case st pi of
               Some (Obj x) \<Rightarrow>
                 if in_index \<ge> ma_n x \<or> num > ma_n x - in_index then Some (Inl EINVAL, st)
                 else if \<not> stack_ok num then None
                 else
                   (case incoming_connections x of
                      None \<Rightarrow> None
                    | Some ic \<Rightarrow>
                        if in_index + num \<le> length ic then
                          (case disconnect_sources
                                  (st(pi \<mapsto> Obj (x\<lparr>incoming_connections :=
                                     Some (clear_slots ic in_index num)\<rparr>)))
                                  pi (collect_sources ic in_index num) of
                             None \<Rightarrow> None
                           | Some st' \<Rightarrow> Some (Inr (), st'))
                        else None)
             | _ \<Rightarrow> None))"

section \<open>Deletion\<close>

text \<open>
  The first loop of \<^verbatim>\<open>ma_delete\<close> removes the automaton \<open>p\<close> from the list of every live
  source of its slots \<open>j, j + 1, \<dots>\<close>; \<open>k\<close> counts the slots that are left.
\<close>

fun delete_sources :: "nat \<Rightarrow> store \<Rightarrow> addr \<Rightarrow> nat \<Rightarrow> store option" where
  "delete_sources 0 st p j = Some st"
| "delete_sources (Suc k) st p j =
     (case st p of
        Some (Obj a) \<Rightarrow>
          (case incoming_connections a of
             None \<Rightarrow> None
           | Some ic \<Rightarrow>
               if j < length ic then
                 (case source_automaton (ic ! j) of
                    None \<Rightarrow> delete_sources k st p (Suc j)
                  | Some q \<Rightarrow>
                      (case read_magic st q of
                         None \<Rightarrow> None
                       | Some mg \<Rightarrow>
                           if mg = MOORE_MAGIC then
                             (case remove_connected st (Some p) (Some q) of
                                None \<Rightarrow> None
                              | Some st' \<Rightarrow> delete_sources k st' p (Suc j))
                           else delete_sources k st p (Suc j)))
               else None)
      | _ \<Rightarrow> None)"

text \<open>The inner loop of the second loop: every slot of \<open>q\<close> that names \<open>p\<close> is cleared.\<close>

definition unlink_dependent :: "store \<Rightarrow> addr \<Rightarrow> addr \<Rightarrow> store option" where
  "unlink_dependent st p q =
     (case st q of
        Some (Obj d) \<Rightarrow>
          if ma_n d = 0 then Some st
          else
            (case incoming_connections d of
               None \<Rightarrow> None
             | Some ic \<Rightarrow>
                 if ma_n d \<le> length ic then
                   Some (st(q \<mapsto> Obj (d\<lparr>incoming_connections :=
                     Some (map (\<lambda>c. if source_automaton c = Some p then empty_connection else c)
                             (take (ma_n d) ic) @ drop (ma_n d) ic)\<rparr>)))
                 else None)
      | _ \<Rightarrow> None)"

fun delete_dependents :: "nat \<Rightarrow> store \<Rightarrow> addr \<Rightarrow> nat \<Rightarrow> store option" where
  "delete_dependents 0 st p i = Some st"
| "delete_dependents (Suc k) st p i =
     (case st p of
        Some (Obj a) \<Rightarrow>
          (let arr = (case connected_to_me a of None \<Rightarrow> [] | Some l \<Rightarrow> l) in
             if i < length arr then
               (case arr ! i of
                  None \<Rightarrow> delete_dependents k st p (Suc i)
                | Some q \<Rightarrow>
                    (case read_magic st q of
                       None \<Rightarrow> None
                     | Some mg \<Rightarrow>
                         if mg \<noteq> MOORE_MAGIC then delete_dependents k st p (Suc i)
                         else
                           (case unlink_dependent st p q of
                              None \<Rightarrow> None
                            | Some st' \<Rightarrow> delete_dependents k st' p (Suc i))))
             else None)
      | _ \<Rightarrow> None)"

definition ma_delete :: "store \<Rightarrow> ptr \<Rightarrow> store option" where
  "ma_delete st a =
     (case a of
        None \<Rightarrow> Some st
      | Some p \<Rightarrow>
          (case read_magic st p of
             None \<Rightarrow> None
           | Some mg \<Rightarrow>
               if mg \<noteq> MOORE_MAGIC then Some st
               else
                 (case st p of
                    Some (Obj x) \<Rightarrow>
                      (case delete_sources (ma_n x)
                              (st(p \<mapsto> Obj (x\<lparr>magic := MOORE_DELETED\<rparr>))) p 0 of
                         None \<Rightarrow> None
                       | Some st1 \<Rightarrow>
                           (case delete_dependents (connected_to_me_count x) st1 p 0 of
                              None \<Rightarrow> None
                            | Some st2 \<Rightarrow> Some (st2(p \<mapsto> Freed))))
                  | _ \<Rightarrow> None)))"

section \<open>Live automata and example networks\<close>

text \<open>
  A live automaton as \<^verbatim>\<open>ma_create_full\<close> builds it and the other operations keep it:
  the tag is \<^verbatim>\<open>MOORE_MAGIC\<close>, the widths have passed the checks of the constructor, and
  every buffer has the number of words of its width.
\<close>

definition buf_len :: "buf \<Rightarrow> nat \<Rightarrow> bool" where
  "buf_len b k = (case b of None \<Rightarrow> False | Some ws \<Rightarrow> length ws = k)"

definition moore_ok :: "moore \<Rightarrow> bool" where
  "moore_ok a =
     (magic a = MOORE_MAGIC \<and> 0 < ma_m a \<and> 0 < ma_s a
      \<and> ma_n a \<le> SIZE_MAX div 64 \<and> ma_m a \<le> SIZE_MAX div 64 \<and> ma_s a \<le> SIZE_MAX div 64
      \<and> buf_len (state a) (n_words (ma_s a)) \<and> buf_len (next_state a) (n_words (ma_s a))
      \<and> buf_len (output a) (n_words (ma_m a))
      \<and> (if ma_n a = 0
          then manual_input a = None \<and> final_input a = None \<and> incoming_connections a = None
          else buf_len (manual_input a) (n_words (ma_n a))
               \<and> buf_len (final_input a) (n_words (ma_n a))
               \<and> map_option length (incoming_connections a) = Some (ma_n a))
      \<and> map_option length (connected_to_me a) = Some (connected_to_me_capacity a)
      \<and> connected_to_me_count a \<le> connected_to_me_capacity a)"

text \<open>
  A small network: the automaton at address 10 has one input, wired to output 0 of the
  automaton at address 20. The transition \<open>latch_t\<close> stores the input word as next state
  (and keeps the state when there is no input).
\<close>

definition latch_t :: transition_function_t where
  "latch_t ns inp cs n s = (case inp of None \<Rightarrow> cs | Some ws \<Rightarrow> take (length cs) ws)"

definition ex_T :: moore where
  "ex_T = \<lparr>ma_n = 1, ma_m = 1, ma_s = 1, ma_t = latch_t, ma_y = identity_func,
     magic = MOORE_MAGIC, state = Some [0], next_state = Some [0], output = Some [0],
     manual_input = Some [1], final_input = Some [0],
     incoming_connections = Some [\<lparr>source_automaton = Some 20, source_output_index = 0\<rparr>],
     connected_to_me = Some (replicate 8 None), connected_to_me_count = 0,
     connected_to_me_capacity = 8\<rparr>"

definition ex_S :: moore where
  "ex_S = \<lparr>ma_n = 0, ma_m = 1, ma_s = 1, ma_t = latch_t, ma_y = identity_func,
     magic = MOORE_MAGIC, state = Some [1], next_state = Some [0], output = Some [1],
     manual_input = None, final_input = None, incoming_connections = None,
     connected_to_me = Some (Some 10 # replicate 7 None), connected_to_me_count = 1,
     connected_to_me_capacity = 8\<rparr>"

definition ex_store :: store where
  "ex_store = (Map.empty(10 \<mapsto> Obj ex_T))(20 \<mapsto> Obj ex_S)"

text \<open>
  \<open>only_final_input X st st'\<close>: the heap \<open>st'\<close> differs from \<open>st\<close> at most in the final-input
  buffers of automata at addresses in \<open>X\<close>.
\<close>

definition only_final_input :: "addr set \<Rightarrow> store \<Rightarrow> store \<Rightarrow> bool" where
  "only_final_input X st st' =
     (\<forall>q. st' q = st q
        \<or> (q \<in> X \<and> (\<exists>a fi. st q = Some (Obj a) \<and> st' q = Some (Obj (a\<lparr>final_input := fi\<rparr>)))))"

section \<open>The input merge as the specification describes it\<close>

text \<open>
  The resolution rule of an input bit in the words of the specification: with a source
  that is live and a recorded index inside the output width of the source, the bit is the
  bit of that index in the output buffer of the source; otherwise it is bit \<open>i\<close> of the
  manual-input buffer.
\<close>

definition resolved_bit :: "store \<Rightarrow> moore \<Rightarrow> nat \<Rightarrow> bool" where
  "resolved_bit st a i =
     (let c = the (incoming_connections a) ! i;
          manual = get_bit (the (manual_input a)) i
      in
        (case source_automaton c of
           None \<Rightarrow> manual
         | Some q \<Rightarrow>
             (case st q of
                Some (Obj src) \<Rightarrow>
                  if magic src = MOORE_MAGIC \<and> source_output_index c < ma_m src
                  then get_bit (the (output src)) (source_output_index c)
                  else manual
              | _ \<Rightarrow> manual)))"

text \<open>
  The loop of \<^verbatim>\<open>update_final_input\<close> on the buffer alone, for values \<open>v\<close> of the inputs.
\<close>

fun merge_bits :: "nat \<Rightarrow> (nat \<Rightarrow> u64) \<Rightarrow> u64 list \<Rightarrow> nat \<Rightarrow> u64 list" where
  "merge_bits 0 v fi i = fi"
| "merge_bits (Suc k) v fi i =
     merge_bits k v
       (if v i \<noteq> 0 then fi[i div 64 := (fi ! (i div 64)) OR push_bit (i mod 64) 1] else fi)
       (Suc i)"

text \<open>
  \<open>INDEX_LIMIT\<close> is the first bit index whose word index \<^verbatim>\<open>idx / 64\<close> does not fit the
  \<^verbatim>\<open>int\<close> that \<^verbatim>\<open>bit_word\<close> returns. \<open>source_ok st c\<close>: a slot is empty, or its source
  is an automaton in memory that has not been freed and which, when live, is well formed
  and no wider than this limit.
\<close>

definition INDEX_LIMIT :: nat where
  "INDEX_LIMIT = 2 ^ 37"

definition source_ok :: "store \<Rightarrow> input_connection_info \<Rightarrow> bool" where
  "source_ok st c =
     (case source_automaton c of
        None \<Rightarrow> True
      | Some q \<Rightarrow>
          (case st q of
             None \<Rightarrow> False
           | Some Freed \<Rightarrow> False
           | Some (Obj src) \<Rightarrow>
               magic src \<noteq> MOORE_MAGIC \<or> (moore_ok src \<and> ma_m src \<le> INDEX_LIMIT)))"

text \<open>
  A network with a wide source: the automaton at address 20 has \<open>2 ^ 38 + 1\<close> outputs, of
  which only output 0 is set; input 0 of the automaton at address 10 is wired to its
  output \<open>2 ^ 38\<close>, as \<^verbatim>\<open>ma_connect(t, 0, s, 274877906944, 1)\<close> leaves it.
\<close>

definition first_out_y :: output_function_t where
  "first_out_y out cs m s = out[0 := 1]"

definition wide_out :: "u64 list" where
  "wide_out = 1 # replicate 4294967296 0"

definition wide_S :: moore where
  "wide_S = \<lparr>ma_n = 0, ma_m = 274877906945, ma_s = 1, ma_t = latch_t, ma_y = first_out_y,
     magic = MOORE_MAGIC, state = Some [0], next_state = Some [0], output = Some wide_out,
     manual_input = None, final_input = None, incoming_connections = None,
     connected_to_me = Some (Some 10 # replicate 7 None), connected_to_me_count = 1,
     connected_to_me_capacity = 8\<rparr>"

definition wide_T :: moore where
  "wide_T = \<lparr>ma_n = 1, ma_m = 1, ma_s = 1, ma_t = latch_t, ma_y = identity_func,
     magic = MOORE_MAGIC, state = Some [0], next_state = Some [0], output = Some [0],
     manual_input = Some [0], final_input = Some [0],
     incoming_connections =
       Some [\<lparr>source_automaton = Some 20, source_output_index = 274877906944\<rparr>],
     connected_to_me = Some (replicate 8 None), connected_to_me_count = 0,
     connected_to_me_capacity = 8\<rparr>"

definition wide_store :: store where
  "wide_store = (Map.empty(10 \<mapsto> Obj wide_T))(20 \<mapsto> Obj wide_S)"

section \<open>The connection graph\<close>

text \<open>
  The list of dependents of an automaton: the first \<^verbatim>\<open>connected_to_me_count\<close> cells of
  \<^verbatim>\<open>connected_to_me\<close>. The sources of an automaton: the sources of its slots.
\<close>

definition dependents :: "moore \<Rightarrow> ptr list" where
  "dependents a =
     take (connected_to_me_count a) (case connected_to_me a of None \<Rightarrow> [] | Some l \<Rightarrow> l)"

definition sources :: "moore \<Rightarrow> ptr list" where
  "sources a = (case incoming_connections a of None \<Rightarrow> [] | Some ic \<Rightarrow> map source_automaton ic)"

text \<open>
  The network \<open>ex_store\<close> with a second source at address 30 that nothing is wired to.
\<close>

definition ex_B :: moore where
  "ex_B = \<lparr>ma_n = 0, ma_m = 1, ma_s = 1, ma_t = latch_t, ma_y = identity_func,
     magic = MOORE_MAGIC, state = Some [0], next_state = Some [0], output = Some [0],
     manual_input = None, final_input = None, incoming_connections = None,
     connected_to_me = Some (replicate 8 None), connected_to_me_count = 0,
     connected_to_me_capacity = 8\<rparr>"

definition two_source_store :: store where
  "two_source_store = ex_store(30 \<mapsto> Obj ex_B)"

text \<open>
  A source at address 20 whose list of dependents is full: eight automata at the addresses
  31 to 38 read its output 0. The automaton at address 10 has one input and no connection.
\<close>

definition full_S :: moore where
  "full_S = \<lparr>ma_n = 0, ma_m = 1, ma_s = 1, ma_t = latch_t, ma_y = identity_func,
     magic = MOORE_MAGIC, state = Some [0], next_state = Some [0], output = Some [0],
     manual_input = None, final_input = None, incoming_connections = None,
     connected_to_me =
       Some [Some 31, Some 32, Some 33, Some 34, Some 35, Some 36, Some 37, Some 38],
     connected_to_me_count = 8, connected_to_me_capacity = 8\<rparr>"

definition full_dep :: moore where
  "full_dep = \<lparr>ma_n = 1, ma_m = 1, ma_s = 1, ma_t = latch_t, ma_y = identity_func,
     magic = MOORE_MAGIC, state = Some [0], next_state = Some [0], output = Some [0],
     manual_input = Some [0], final_input = Some [0],
     incoming_connections = Some [\<lparr>source_automaton = Some 20, source_output_index = 0\<rparr>],
     connected_to_me = Some (replicate 8 None), connected_to_me_count = 0,
     connected_to_me_capacity = 8\<rparr>"

definition free_T :: moore where
  "free_T = \<lparr>ma_n = 1, ma_m = 1, ma_s = 1, ma_t = latch_t, ma_y = identity_func,
     magic = MOORE_MAGIC, state = Some [0], next_state = Some [0], output = Some [0],
     manual_input = Some [0], final_input = Some [0],
     incoming_connections = Some [empty_connection],
     connected_to_me = Some (replicate 8 None), connected_to_me_count = 0,
     connected_to_me_capacity = 8\<rparr>"

definition full_store :: store where
  "full_store q =
     (if q = 10 then Some (Obj free_T)
      else if q = 20 then Some (Obj full_S)
      else if 31 \<le> q \<and> q \<le> 38 then Some (Obj full_dep)
      else None)"

section \<open>Unused bits of the last word\<close>

text \<open>
  \<open>high_bits_zero k ws\<close>: in a buffer of \<open>k\<close> bits, the bits of the last word from position
  \<open>k mod 64\<close> on are zero (there are none when \<open>k\<close> is a multiple of 64).
\<close>

definition high_bits_zero :: "nat \<Rightarrow> u64 list \<Rightarrow> bool" where
  "high_bits_zero k ws = (k mod 64 = 0 \<or> drop_bit (k mod 64) (ws ! (n_words k - 1)) = 0)"

section \<open>Loops over the array of a step\<close>

text \<open>
  \<open>each f ps st\<close> runs the operation \<open>f\<close> on the elements of \<open>ps\<close> in order, from the heap
  \<open>st\<close>, and stops at the first undefined result.
\<close>

definition each :: "(store \<Rightarrow> ptr \<Rightarrow> store option) \<Rightarrow> ptr list \<Rightarrow> store option \<Rightarrow> store option" where
  "each f ps r = fold (\<lambda>a r. case r of None \<Rightarrow> None | Some s \<Rightarrow> f s a) ps r"

section \<open>Two runs of a step\<close>

text \<open>
  \<open>base_eq a b\<close>: two automata have the same widths and functions, the same liveness tag,
  the same state, output and manual-input buffers and the same connection slots.
\<close>

definition base_eq :: "moore \<Rightarrow> moore \<Rightarrow> bool" where
  "base_eq a b =
     (ma_n a = ma_n b \<and> ma_m a = ma_m b \<and> ma_s a = ma_s b \<and> ma_t a = ma_t b \<and> ma_y a = ma_y b
      \<and> magic a = magic b \<and> state a = state b \<and> output a = output b
      \<and> manual_input a = manual_input b \<and> incoming_connections a = incoming_connections b)"

text \<open>
  The transition function of an automaton does not read the old contents of the
  next-state buffer it writes, and the output function not those of the output buffer.
\<close>

definition pure_t :: "moore \<Rightarrow> bool" where
  "pure_t a =
     (\<forall>ns ns' inp cs. length ns = n_words (ma_s a) \<and> length ns' = n_words (ma_s a) \<longrightarrow>
        ma_t a ns inp cs (ma_n a) (ma_s a) = ma_t a ns' inp cs (ma_n a) (ma_s a))"

definition pure_y :: "moore \<Rightarrow> bool" where
  "pure_y a =
     (\<forall>out out' cs. length out = n_words (ma_m a) \<and> length out' = n_words (ma_m a) \<longrightarrow>
        ma_y a out cs (ma_m a) (ma_s a) = ma_y a out' cs (ma_m a) (ma_s a))"

text \<open>The shape of the final-input and next-state buffers of a live automaton.\<close>

definition fi_ok :: "moore \<Rightarrow> bool" where
  "fi_ok a =
     (if ma_n a = 0 \<or> manual_input a = None \<or> incoming_connections a = None
      then final_input a = None
      else buf_len (final_input a) (n_words (ma_n a)))"

definition ns_ok :: "moore \<Rightarrow> bool" where
  "ns_ok a = (buf_len (next_state a) (n_words (ma_s a)) \<and> pure_t a)"

text \<open>
  \<open>sim F N st st'\<close> relates the heaps of two runs: cell by cell they hold the same
  automata up to the contents of the final-input and next-state buffers and the lists of
  dependents; the final-input buffers are equal at the addresses in \<open>F\<close> and well shaped
  elsewhere, the next-state buffers are equal at the addresses in \<open>N\<close> and well shaped
  elsewhere.
\<close>

definition csim :: "bool \<Rightarrow> bool \<Rightarrow> cell option \<Rightarrow> cell option \<Rightarrow> bool" where
  "csim f n c d =
     (case c of
        None \<Rightarrow> d = None
      | Some Freed \<Rightarrow> d = Some Freed
      | Some (Obj a) \<Rightarrow>
          (case d of
             Some (Obj b) \<Rightarrow>
               base_eq a b
               \<and> (final_input a = final_input b \<or> (\<not> f \<and> fi_ok a \<and> fi_ok b))
               \<and> (next_state a = next_state b \<or> (\<not> n \<and> ns_ok a \<and> ns_ok b))
           | _ \<Rightarrow> False))"

definition sim :: "addr set \<Rightarrow> addr set \<Rightarrow> store \<Rightarrow> store \<Rightarrow> bool" where
  "sim F N st st' = (\<forall>q. csim (q \<in> F) (q \<in> N) (st q) (st' q))"

definition addrs :: "ptr list \<Rightarrow> addr set" where
  "addrs ps = {q. Some q \<in> set ps}"

text \<open>
  The final-input buffer after one iteration of the loop of \<^verbatim>\<open>update_final_input\<close>.
\<close>

definition iter_fi :: "store \<Rightarrow> moore \<Rightarrow> nat \<Rightarrow> buf option" where
  "iter_fi st a i =
     (case input_value st a i of
        None \<Rightarrow> None
      | Some v \<Rightarrow>
          if v \<noteq> 0 then
            (case final_input a of
               None \<Rightarrow> None
             | Some fi \<Rightarrow>
                 (case rd fi (bit_word i) of
                    None \<Rightarrow> None
                  | Some x \<Rightarrow>
                      (case wr fi (bit_word i) (x OR push_bit (nat (bit_pos i)) 1) of
                         None \<Rightarrow> None
                       | Some fi' \<Rightarrow> Some (Some fi'))))
          else Some (final_input a))"

text \<open>
  \<open>same_network st st'\<close>: two heaps hold the same automata (widths, functions, liveness)
  with identical states, identical manual inputs and identical connection slots.
  \<open>heap_ok st\<close>: every automaton of the heap is live and well formed, its transition
  function does not read the next-state buffer, and its output buffer holds the value of
  its output function at its state (computed into a zeroed buffer, as the constructor
  does). \<open>agree st st'\<close>: two heaps hold the same automata with identical states and
  identical outputs (and manual inputs and slots).
\<close>

definition same_network :: "store \<Rightarrow> store \<Rightarrow> bool" where
  "same_network st st' =
     (\<forall>q. case st q of
            None \<Rightarrow> st' q = None
          | Some Freed \<Rightarrow> st' q = Some Freed
          | Some (Obj a) \<Rightarrow>
              (case st' q of
                 Some (Obj b) \<Rightarrow>
                   ma_n a = ma_n b \<and> ma_m a = ma_m b \<and> ma_s a = ma_s b \<and> ma_t a = ma_t b
                   \<and> ma_y a = ma_y b \<and> magic a = magic b \<and> state a = state b
                   \<and> manual_input a = manual_input b
                   \<and> incoming_connections a = incoming_connections b
               | _ \<Rightarrow> False))"

definition cell_ok :: "moore \<Rightarrow> bool" where
  "cell_ok a =
     (moore_ok a \<and> pure_t a
      \<and> output a = Some (ma_y a (replicate (n_words (ma_m a)) 0) (the (state a)) (ma_m a) (ma_s a)))"

definition heap_ok :: "store \<Rightarrow> bool" where
  "heap_ok st = (\<forall>q a. st q = Some (Obj a) \<longrightarrow> cell_ok a)"

definition agree :: "store \<Rightarrow> store \<Rightarrow> bool" where
  "agree st st' =
     (\<forall>q. case st q of
            None \<Rightarrow> st' q = None
          | Some Freed \<Rightarrow> st' q = Some Freed
          | Some (Obj a) \<Rightarrow> (case st' q of Some (Obj b) \<Rightarrow> base_eq a b | _ \<Rightarrow> False))"

text \<open>The network \<open>ex_store\<close> with other contents of the scratch buffers.\<close>

definition ex_store' :: store where
  "ex_store' = (Map.empty(10 \<mapsto> Obj (ex_T\<lparr>next_state := Some [7], final_input := Some [1]\<rparr>)))
     (20 \<mapsto> Obj (ex_S\<lparr>next_state := Some [9]\<rparr>))"

text \<open>
  \<open>fi_frame st s\<close>: the heap \<open>s\<close> differs from \<open>st\<close> at most in the contents of final-input
  buffers; their lengths are the same.
\<close>

definition fi_frame :: "store \<Rightarrow> store \<Rightarrow> bool" where
  "fi_frame st s =
     (\<forall>q. s q = st q
        \<or> (\<exists>a fi. st q = Some (Obj a) \<and> s q = Some (Obj (a\<lparr>final_input := fi\<rparr>))
              \<and> map_option length fi = map_option length (final_input a)))"

text \<open>
  The automaton that \<^verbatim>\<open>ma_create_simple(0, 2, t)\<close> builds: no inputs, two state bits.
\<close>

definition ex_C :: moore where
  "ex_C = \<lparr>ma_n = 0, ma_m = 2, ma_s = 2, ma_t = latch_t, ma_y = identity_func,
     magic = MOORE_MAGIC, state = Some [0], next_state = Some [0], output = Some [0],
     manual_input = None, final_input = None, incoming_connections = None,
     connected_to_me = Some (replicate 8 None), connected_to_me_count = 0,
     connected_to_me_capacity = 8\<rparr>"

section \<open>Basic facts\<close>

lemma n_words_eq: "k \<le> SIZE_MAX div 64 \<Longrightarrow> n_words k = (k + 63) div 64"
  by (simp add: n_words_def size_add_def SIZE_MAX_def)

lemma buf_lenD: "buf_len b k \<Longrightarrow> \<exists>ws. b = Some ws \<and> length ws = k"
  by (cases b) (simp_all add: buf_len_def)

lemma ex_T_ok: "moore_ok ex_T"
  by (simp add: moore_ok_def ex_T_def buf_len_def n_words_def size_add_def SIZE_MAX_def
        MOORE_MAGIC_def)

lemma ex_S_ok: "moore_ok ex_S"
  by (simp add: moore_ok_def ex_S_def buf_len_def n_words_def size_add_def SIZE_MAX_def
        MOORE_MAGIC_def)

lemma ex_store_1: "ex_store 10 = Some (Obj ex_T)"
  by (simp add: ex_store_def)

lemma ex_store_2: "ex_store 20 = Some (Obj ex_S)"
  by (simp add: ex_store_def)

section \<open>Manual input\<close>

text \<open>
  Claim C9. For a live automaton \<open>a\<close> with \<open>n > 0\<close> and an input array of at least
  \<open>ceil(n/64)\<close> words, \<^verbatim>\<open>ma_set_input\<close> returns 0 and the heap changes in one place only:
  the manual-input buffer of \<open>a\<close> holds the first \<open>ceil(n/64)\<close> words of the array. The
  state, next-state, output and final-input buffers of \<open>a\<close>, its connection slots, its
  list of dependents and every other automaton are as before.
\<close>

theorem set_input_frame:
  assumes "st p = Some (Obj a)" and "moore_ok a" and "0 < ma_n a"
    and "n_words (ma_n a) \<le> length ws"
  shows "ma_set_input st (Some p) (Some ws) =
           Some (Inr (), st(p \<mapsto> Obj (a\<lparr>manual_input := Some (take (n_words (ma_n a)) ws)\<rparr>)))
         \<and> n_words (ma_n a) = (ma_n a + 63) div 64"
proof -
  from assms(2,3) obtain mi where mi: "manual_input a = Some mi" "length mi = n_words (ma_n a)"
    by (auto simp: moore_ok_def dest: buf_lenD)
  have "memcpy_words mi ws (n_words (ma_n a)) = Some (take (n_words (ma_n a)) ws)"
    using mi assms(4) by (simp add: memcpy_words_def)
  moreover have "n_words (ma_n a) = (ma_n a + 63) div 64"
    using assms(2) by (simp add: moore_ok_def n_words_eq)
  ultimately show ?thesis
    using assms(1,3) mi by (simp add: ma_set_input_def)
qed

theorem set_input_frame_witness:
  "ex_store 10 = Some (Obj ex_T) \<and> moore_ok ex_T \<and> 0 < ma_n ex_T
   \<and> n_words (ma_n ex_T) \<le> length [5 :: u64, 7]
   \<and> ma_set_input ex_store (Some 10) (Some [5, 7]) =
        Some (Inr (), ex_store(10 \<mapsto> Obj (ex_T\<lparr>manual_input := Some [5]\<rparr>)))"
proof -
  have h3: "0 < ma_n ex_T" by (simp add: ex_T_def)
  have nw: "n_words (ma_n ex_T) = 1" by (simp add: ex_T_def n_words_def size_add_def)
  have h4: "n_words (ma_n ex_T) \<le> length [5 :: u64, 7]" by (simp add: nw)
  have tk: "take (n_words (ma_n ex_T)) [5 :: u64, 7] = [5]" by (simp add: nw)
  have r: "ma_set_input ex_store (Some 10) (Some [5, 7]) =
        Some (Inr (), ex_store(10 \<mapsto> Obj (ex_T\<lparr>manual_input := Some [5]\<rparr>)))"
    using set_input_frame [of ex_store 10 ex_T "[5, 7]", OF ex_store_1 ex_T_ok h3 h4]
    by (simp only: tk)
  from ex_store_1 ex_T_ok h3 h4 r show ?thesis by (intro conjI)
qed

section \<open>Deletion\<close>

text \<open>
  What \<^verbatim>\<open>ma_delete\<close> does on each kind of reference: nothing on NULL; nothing on an
  automaton whose tag is not \<^verbatim>\<open>MOORE_MAGIC\<close> (memory that is still allocated); a live
  automaton ends as freed memory; and on freed memory the test of the tag is a read of
  freed memory, so that a second call on the same reference is undefined.
\<close>

lemma delete_null: "ma_delete st None = Some st"
  by (simp add: ma_delete_def)

lemma delete_not_live:
  "st p = Some (Obj a) \<Longrightarrow> magic a \<noteq> MOORE_MAGIC \<Longrightarrow> ma_delete st (Some p) = Some st"
  by (simp add: ma_delete_def read_magic_def)

lemma delete_freed_undefined: "st p = Some Freed \<Longrightarrow> ma_delete st (Some p) = None"
  by (simp add: ma_delete_def read_magic_def)

lemma delete_live_frees:
  assumes "ma_delete st (Some p) = Some st'" and "st p = Some (Obj a)"
    and "magic a = MOORE_MAGIC"
  shows "st' p = Some Freed"
  using assms by (auto simp: ma_delete_def read_magic_def split: option.splits)

lemma delete_twice:
  assumes "ma_delete st (Some p) = Some st'" and "st p = Some (Obj a)"
    and "magic a = MOORE_MAGIC"
  shows "ma_delete st' (Some p) = None"
  using delete_live_frees [OF assms] by (rule delete_freed_undefined)

lemma create_simple_ex_C:
  "ma_create_simple st True (Some 10) (\<lambda>k. True) 0 2 (Some latch_t) =
     Some (Inr 10, st(10 \<mapsto> Obj ex_C))"
  by (simp add: ma_create_simple_def ma_create_full_def Let_def n_words_def size_add_def
        SIZE_MAX_def memcpy_words_def identity_func_def ex_C_def
        INIT_CONNECTION_CAPACITY_def)

lemma delete_lone:
  assumes "ma_n a = 0" and "connected_to_me_count a = 0" and "magic a = MOORE_MAGIC"
  shows "ma_delete (st(p \<mapsto> Obj a)) (Some p) = Some (st(p \<mapsto> Freed))"
  using assms by (simp add: ma_delete_def read_magic_def)

text \<open>
  Claim C7 (delete is a no-op on a NULL or already destroyed reference; calling it twice
  on the same reference is safe and the second call has no effect). The automaton that
  \<^verbatim>\<open>ma_create_simple(0, 1, t)\<close> returns at address 10 is deleted: the memory at 10 is
  freed. The second \<^verbatim>\<open>ma_delete\<close> on the same reference is undefined, for its test
  \<^verbatim>\<open>a->magic != MOORE_MAGIC\<close> reads the freed structure. When the allocator hands the
  address out again, to \<^verbatim>\<open>ma_create_simple(0, 2, t)\<close>, the second \<^verbatim>\<open>ma_delete\<close> on the
  old reference finds the tag \<^verbatim>\<open>MOORE_MAGIC\<close> and destroys the new automaton, whose output
  can no longer be read.
\<close>

theorem delete_twice_undefined:
  "ma_create_simple Map.empty True (Some 10) (\<lambda>k. True) 0 1 (Some latch_t) =
     Some (Inr 10, [10 \<mapsto> Obj ex_B])
   \<and> ma_delete [10 \<mapsto> Obj ex_B] (Some 10) = Some [10 \<mapsto> Freed]
   \<and> ma_delete [10 \<mapsto> Freed] (Some 10) = None
   \<and> ma_create_simple [10 \<mapsto> Freed] True (Some 10) (\<lambda>k. True) 0 2 (Some latch_t) =
       Some (Inr 10, [10 \<mapsto> Obj ex_C])
   \<and> ma_get_output [10 \<mapsto> Obj ex_C] (Some 10) = Some (Inr (Some [0]))
   \<and> ma_delete [10 \<mapsto> Obj ex_C] (Some 10) = Some [10 \<mapsto> Freed]
   \<and> ma_get_output [10 \<mapsto> Freed] (Some 10) = None"
proof -
  have c1: "ma_create_simple Map.empty True (Some 10) (\<lambda>k. True) 0 1 (Some latch_t) =
      Some (Inr 10, [10 \<mapsto> Obj ex_B])"
    by (simp add: ma_create_simple_def ma_create_full_def Let_def n_words_def size_add_def
        SIZE_MAX_def memcpy_words_def identity_func_def ex_B_def
        INIT_CONNECTION_CAPACITY_def)
  have d1: "ma_delete [10 \<mapsto> Obj ex_B] (Some 10) = Some [10 \<mapsto> Freed]"
    using delete_lone [of ex_B Map.empty 10] by (simp add: ex_B_def)
  have d2: "ma_delete [10 \<mapsto> Freed] (Some 10) = None"
    by (simp add: delete_freed_undefined)
  have c2: "ma_create_simple [10 \<mapsto> Freed] True (Some 10) (\<lambda>k. True) 0 2 (Some latch_t) =
      Some (Inr 10, [10 \<mapsto> Obj ex_C])"
    by (simp add: create_simple_ex_C)
  have g1: "ma_get_output [10 \<mapsto> Obj ex_C] (Some 10) = Some (Inr (Some [0]))"
    by (simp add: ma_get_output_def ex_C_def)
  have d3: "ma_delete [10 \<mapsto> Obj ex_C] (Some 10) = Some [10 \<mapsto> Freed]"
    using delete_lone [of ex_C Map.empty 10] by (simp add: ex_C_def)
  have g2: "ma_get_output [10 \<mapsto> Freed] (Some 10) = None"
    by (simp add: ma_get_output_def)
  from c1 d1 d2 c2 g1 d3 g2 show ?thesis by (intro conjI)
qed

section \<open>Construction\<close>

text \<open>
  Claim C6. When \<^verbatim>\<open>ma_create_full\<close> succeeds, its three pointer arguments are not NULL,
  \<open>m \<ge> 1\<close> and \<open>s \<ge> 1\<close>, the state buffer of the new automaton holds the \<open>ceil(s/64)\<close> words
  of the initial state, and \<^verbatim>\<open>ma_get_output\<close> called next returns the buffer that the
  output function has computed from that state (into the zeroed output buffer of
  \<open>ceil(m/64)\<close> words).
\<close>

theorem create_full_get_output:
  assumes "ma_create_full st new ok n m s t y q = Some (Inr p, st')"
  shows "\<exists>tf yf qs a. t = Some tf \<and> y = Some yf \<and> q = Some qs \<and> 1 \<le> m \<and> 1 \<le> s
           \<and> n_words s = (s + 63) div 64 \<and> n_words m = (m + 63) div 64
           \<and> st' p = Some (Obj a)
           \<and> state a = Some (take (n_words s) qs)
           \<and> ma_get_output st' (Some p) =
               Some (Inr (Some (yf (replicate (n_words m) 0) (take (n_words s) qs) m s)))"
  using assms
  by (auto simp: ma_create_full_def Let_def memcpy_words_def ma_get_output_def n_words_eq
           split: option.splits if_splits)


theorem create_full_get_output_witness:
  "\<exists>st'. ma_create_full Map.empty (Some 10) (\<lambda>k. True) 1 1 1 (Some latch_t) (Some identity_func)
           (Some [1]) = Some (Inr 10, st')
     \<and> ma_get_output st' (Some 10) = Some (Inr (Some [1]))"
proof -
  obtain st' where c: "ma_create_full Map.empty (Some 10) (\<lambda>k. True) 1 1 1 (Some latch_t)
      (Some identity_func) (Some [1]) = Some (Inr 10, st')"
    by (simp add: ma_create_full_def Let_def n_words_def size_add_def SIZE_MAX_def
          memcpy_words_def)
  have nw: "n_words (Suc 0) = Suc 0" by (simp add: n_words_def size_add_def)
  have i: "identity_func (replicate (n_words (Suc 0)) 0) (take (n_words (Suc 0)) [1])
      (Suc 0) (Suc 0) = [1]"
    by (simp add: identity_func_def nw Let_def)
  from create_full_get_output [OF c] have
    "ma_get_output st' (Some 10) = Some (Inr (Some [1]))"
    by (auto simp: i)
  with c show ?thesis by blast
qed

section \<open>Frame of the input merge\<close>

lemma self_upd: "st p = Some (Obj a) \<Longrightarrow> st = st(p \<mapsto> Obj (a\<lparr>final_input := final_input a\<rparr>))"
  by (simp add: fun_upd_idem)

lemma ufi_iter_frame:
  assumes "ufi_iter st p i = Some st'" and "st p = Some (Obj a)"
  shows "\<exists>fi. st' = st(p \<mapsto> Obj (a\<lparr>final_input := fi\<rparr>))"
proof (cases "st' = st")
  case True
  from self_upd [of st p a, OF assms(2)] have "st' = st(p \<mapsto> Obj (a\<lparr>final_input := final_input a\<rparr>))"
    unfolding True .
  then show ?thesis by (rule exI)
next
  case False
  with assms show ?thesis
    by (auto simp: ufi_iter_def split: option.splits if_splits)
qed

lemma ufi_loop_frame:
  "ufi_loop k st p i = Some st' \<Longrightarrow> st p = Some (Obj a) \<Longrightarrow>
   \<exists>fi. st' = st(p \<mapsto> Obj (a\<lparr>final_input := fi\<rparr>))"
proof (induction k arbitrary: st a i)
  case 0
  from 0(1) have e: "st' = st" by simp
  from self_upd [of st p a, OF 0(2)] have "st' = st(p \<mapsto> Obj (a\<lparr>final_input := final_input a\<rparr>))"
    unfolding e .
  then show ?case by (rule exI)
next
  case (Suc k)
  from Suc.prems(1) obtain st1 where s1: "ufi_iter st p i = Some st1"
    and l: "ufi_loop k st1 p (Suc i) = Some st'"
    by (auto split: option.splits)
  from ufi_iter_frame [OF s1 Suc.prems(2)] obtain fi1 where
    e1: "st1 = st(p \<mapsto> Obj (a\<lparr>final_input := fi1\<rparr>))" by blast
  then have "st1 p = Some (Obj (a\<lparr>final_input := fi1\<rparr>))" by simp
  from Suc.IH [OF l this] obtain fi where
    "st' = st1(p \<mapsto> Obj (a\<lparr>final_input := fi1, final_input := fi\<rparr>))" by blast
  with e1 show ?case by auto
qed

lemma update_final_input_frame:
  assumes "update_final_input st (Some p) = Some st'"
  shows "st' = st \<or> (\<exists>a fi. st p = Some (Obj a) \<and> st' = st(p \<mapsto> Obj (a\<lparr>final_input := fi\<rparr>)))"
proof (cases "st' = st")
  case True then show ?thesis by simp
next
  case False
  from assms False obtain a f where
    a: "st p = Some (Obj a)" and f: "final_input a = Some f"
    and l: "ufi_loop (ma_n a)
              (st(p \<mapsto> Obj (a\<lparr>final_input :=
                 Some (replicate (n_words (ma_n a)) 0 @ drop (n_words (ma_n a)) f)\<rparr>))) p 0 = Some st'"
    by (auto simp: update_final_input_def split: option.splits cell.splits if_splits)
  let ?a1 = "a\<lparr>final_input := Some (replicate (n_words (ma_n a)) 0 @ drop (n_words (ma_n a)) f)\<rparr>"
  have "(st(p \<mapsto> Obj ?a1)) p = Some (Obj ?a1)" by simp
  from ufi_loop_frame [OF l this] obtain fi where
    "st' = (st(p \<mapsto> Obj ?a1))(p \<mapsto> Obj (?a1\<lparr>final_input := fi\<rparr>))" by blast
  then have "st' = st(p \<mapsto> Obj (a\<lparr>final_input := fi\<rparr>))" by simp
  with a show ?thesis by blast
qed

lemma only_final_input_refl: "only_final_input X st st"
  by (simp add: only_final_input_def)

lemma only_final_input_mono: "only_final_input X st st' \<Longrightarrow> X \<subseteq> Y \<Longrightarrow> only_final_input Y st st'"
  unfolding only_final_input_def by blast

lemma only_final_input_upd:
  "st p = Some (Obj a) \<Longrightarrow> only_final_input {p} st (st(p \<mapsto> Obj (a\<lparr>final_input := fi\<rparr>)))"
  unfolding only_final_input_def by auto

lemma only_final_input_trans:
  assumes "only_final_input X st st1" and "only_final_input Y st1 st2"
  shows "only_final_input (X \<union> Y) st st2"
  unfolding only_final_input_def
proof
  fix q
  from assms(1) have c1: "st1 q = st q
      \<or> (q \<in> X \<and> (\<exists>a fi. st q = Some (Obj a) \<and> st1 q = Some (Obj (a\<lparr>final_input := fi\<rparr>))))"
    unfolding only_final_input_def by blast
  from assms(2) have c2: "st2 q = st1 q
      \<or> (q \<in> Y \<and> (\<exists>a fi. st1 q = Some (Obj a) \<and> st2 q = Some (Obj (a\<lparr>final_input := fi\<rparr>))))"
    unfolding only_final_input_def by blast
  from c1 c2 show "st2 q = st q
      \<or> (q \<in> X \<union> Y \<and> (\<exists>a fi. st q = Some (Obj a) \<and> st2 q = Some (Obj (a\<lparr>final_input := fi\<rparr>))))"
    by (elim disjE conjE exE) (auto, metis moore.update_convs(11))
qed

section \<open>The step engine: failure on a NULL element\<close>

lemma step_inputs_frame:
  "step_inputs st ps = Some (b, st') \<Longrightarrow> only_final_input {q. Some q \<in> set ps} st st'"
proof (induction st ps rule: step_inputs.induct)
  case (1 st)
  then show ?case by (simp add: only_final_input_refl)
next
  case (2 st ps)
  then show ?case by (simp add: only_final_input_refl)
next
  case (3 st p ps)
  from "3.prems" obtain st1 where u: "update_final_input st (Some p) = Some st1"
    and r: "step_inputs st1 ps = Some (b, st')"
    by (auto split: option.splits)
  from update_final_input_frame [OF u] have "only_final_input {p} st st1"
    by (auto simp: only_final_input_refl only_final_input_upd)
  moreover from "3.IH" [OF u r] have "only_final_input {q. Some q \<in> set ps} st1 st'" .
  ultimately have "only_final_input ({p} \<union> {q. Some q \<in> set ps}) st st'"
    by (rule only_final_input_trans)
  then show ?case
    by (rule only_final_input_mono) auto
qed

lemma step_inputs_null:
  "None \<notin> set pre \<Longrightarrow>
   step_inputs st (pre @ None # rest) =
     (case step_inputs st pre of None \<Rightarrow> None | Some (b, st1) \<Rightarrow> Some (False, st1))"
proof (induction st pre rule: step_inputs.induct)
  case (1 st)
  then show ?case by simp
next
  case (2 st ps)
  then show ?case by simp
next
  case (3 st p ps)
  then show ?case by (simp split: option.splits)
qed

lemma step_inputs_complete:
  "None \<notin> set ps \<Longrightarrow> step_inputs st ps = Some (b, st') \<Longrightarrow> b"
proof (induction st ps rule: step_inputs.induct)
  case (1 st)
  then show ?case by simp
next
  case (2 st ps)
  then show ?case by simp
next
  case (3 st p ps)
  then show ?case by (auto split: option.splits)
qed

text \<open>
  Claim C10. Let the array passed to \<^verbatim>\<open>ma_step\<close> hold a NULL element, \<open>pre\<close> being the
  elements before the first one. Then the call is the input merge of the automata of
  \<open>pre\<close>, in order, followed by the return of -1 with \<^verbatim>\<open>EINVAL\<close>: whenever it returns,
  the resulting heap is the one the first loop has produced on \<open>pre\<close> (no transition or
  output function is called), and it differs from the heap before the call at most in
  the final-input buffers of the automata of \<open>pre\<close>; state, next-state and output
  buffers are as before.
\<close>

theorem step_null_element:
  assumes "None \<notin> set pre"
  shows "ma_step st (Some (pre @ None # rest)) =
           (case step_inputs st pre of None \<Rightarrow> None | Some (b, st1) \<Rightarrow> Some (Inl EINVAL, st1))
         \<and> (\<forall>r st'. ma_step st (Some (pre @ None # rest)) = Some (r, st') \<longrightarrow>
               r = Inl EINVAL \<and> step_inputs st pre = Some (True, st')
               \<and> only_final_input {q. Some q \<in> set pre} st st'
               \<and> (\<forall>q a'. st' q = Some (Obj a') \<longrightarrow>
                     (\<exists>a. st q = Some (Obj a) \<and> state a' = state a
                        \<and> next_state a' = next_state a \<and> output a' = output a)))"
proof -
  have eq: "ma_step st (Some (pre @ None # rest)) =
           (case step_inputs st pre of None \<Rightarrow> None | Some (b, st1) \<Rightarrow> Some (Inl EINVAL, st1))"
    using assms by (simp add: ma_step_def step_inputs_null split: option.splits)
  have "r = Inl EINVAL \<and> step_inputs st pre = Some (True, st')
         \<and> only_final_input {q. Some q \<in> set pre} st st'
         \<and> (\<forall>q a'. st' q = Some (Obj a') \<longrightarrow>
               (\<exists>a. st q = Some (Obj a) \<and> state a' = state a
                  \<and> next_state a' = next_state a \<and> output a' = output a))"
    if h: "ma_step st (Some (pre @ None # rest)) = Some (r, st')" for r st'
  proof -
    from h eq obtain b where s: "step_inputs st pre = Some (b, st')" and r: "r = Inl EINVAL"
      by (auto split: option.splits)
    from step_inputs_complete [OF assms s] have b: "b" .
    from step_inputs_frame [OF s] have o: "only_final_input {q. Some q \<in> set pre} st st'" .
    have "\<exists>a. st q = Some (Obj a) \<and> state a' = state a
            \<and> next_state a' = next_state a \<and> output a' = output a"
      if "st' q = Some (Obj a')" for q a'
      using o that unfolding only_final_input_def by (metis cell.inject moore.select_convs(7,8,9) moore.surjective moore.update_convs(11) option.inject)
    then have fr: "\<forall>q a'. st' q = Some (Obj a') \<longrightarrow>
               (\<exists>a. st q = Some (Obj a) \<and> state a' = state a
                  \<and> next_state a' = next_state a \<and> output a' = output a)"
      by blast
    from s b have "step_inputs st pre = Some (True, st')" by simp
    with r o fr show ?thesis by (intro conjI)
  qed
  with eq show ?thesis by blast
qed

lemma ex_update_final_input:
  "update_final_input ex_store (Some 10) =
     Some (ex_store(10 \<mapsto> Obj (ex_T\<lparr>final_input := Some [1]\<rparr>)))"
  by (simp add: update_final_input_def ex_store_def ex_T_def ex_S_def n_words_def size_add_def
        ufi_iter_def input_value_def manual_value_def read_magic_def bit_word_def bit_pos_def
        rd_def wr_def MOORE_MAGIC_def)

theorem step_null_element_witness:
  "None \<notin> set [Some (10::nat)]
   \<and> ma_step ex_store (Some ([Some 10] @ None # [Some 20])) =
       Some (Inl EINVAL, ex_store(10 \<mapsto> Obj (ex_T\<lparr>final_input := Some [1]\<rparr>)))
   \<and> only_final_input {q. Some q \<in> set [Some (10::nat)]} ex_store
       (ex_store(10 \<mapsto> Obj (ex_T\<lparr>final_input := Some [1]\<rparr>)))"
proof -
  let ?st' = "ex_store(10 \<mapsto> Obj (ex_T\<lparr>final_input := Some [1]\<rparr>))"
  have h: "None \<notin> set [Some (10::nat)]" by simp
  have e: "step_inputs ex_store [Some 10] = Some (True, ?st')"
    by (simp add: ex_update_final_input)
  note t = step_null_element [of "[Some 10]" ex_store "[Some 20]", OF h]
  from t have "ma_step ex_store (Some ([Some 10] @ None # [Some 20])) =
      (case step_inputs ex_store [Some 10] of None \<Rightarrow> None
       | Some (b, st1) \<Rightarrow> Some (Inl EINVAL, st1))"
    by (rule conjunct1)
  then have r: "ma_step ex_store (Some ([Some 10] @ None # [Some 20])) = Some (Inl EINVAL, ?st')"
    by (simp only: e option.case prod.case)
  from t r have "only_final_input {q. Some q \<in> set [Some (10::nat)]} ex_store ?st'"
    by blast
  with h r show ?thesis by (intro conjI)
qed

section \<open>Bit addressing\<close>

lemma sint_small: "k < 2 ^ 31 \<Longrightarrow> sint (word_of_nat k :: 32 word) = int k"
  by (simp add: signed_of_nat signed_take_bit_int_eq_self)

lemma bit_word_small: "i < INDEX_LIMIT \<Longrightarrow> bit_word i = int (i div 64)"
proof -
  assume "i < INDEX_LIMIT"
  then have "i div 64 < 2 ^ 31" by (simp add: INDEX_LIMIT_def)
  then show ?thesis unfolding bit_word_def by (rule sint_small)
qed

lemma bit_pos_eq: "bit_pos i = int (i mod 64)"
proof -
  have "i mod 64 < 2 ^ 31"
    by (rule less_trans [of _ 64]) simp_all
  then show ?thesis unfolding bit_pos_def by (rule sint_small)
qed

lemma shifted_bit: "drop_bit b (x::u64) AND 1 = (if bit x b then 1 else 0)"
  by (metis and_exp_eq_0_iff_not_bit bit_iff_and_drop_bit_eq_1
    drop_bit_int_code(1) of_int_0 of_int_1 power_0 unsigned_1
    word_and_def)

lemma rd_nat: "k < length xs \<Longrightarrow> rd xs (int k) = Some (xs ! k)"
  by (simp add: rd_def)

lemma wr_nat: "k < length xs \<Longrightarrow> wr xs (int k) v = Some (xs[k := v])"
  by (simp add: wr_def)

lemma index_split: "(j = i) = (j div 64 = i div 64 \<and> j mod 64 = (i::nat) mod 64)"
  by (metis div_mult_mod_eq)

lemma get_bit_set:
  assumes "i div 64 < length fi"
  shows "get_bit (fi[i div 64 := (fi ! (i div 64)) OR push_bit (i mod 64) 1]) j
           = (get_bit fi j \<or> j = i)"
proof (cases "j div 64 = i div 64")
  case True
  have "j mod 64 < 64" by simp
  with True assms show ?thesis
    by (auto simp: get_bit_def bit_simps index_split [of j i])
next
  case False
  then show ?thesis
    by (auto simp: get_bit_def)
qed

lemma length_merge_bits: "length (merge_bits k v fi i) = length fi"
  by (induction k arbitrary: fi i) simp_all

lemma get_bit_merge_bits:
  "(i + k - 1) div 64 < length fi \<or> k = 0 \<Longrightarrow>
   get_bit (merge_bits k v fi i) j = (get_bit fi j \<or> (i \<le> j \<and> j < i + k \<and> v j \<noteq> 0))"
proof (induction k arbitrary: fi i)
  case 0
  then show ?case by auto
next
  case (Suc k)
  let ?fi = "if v i \<noteq> 0 then fi[i div 64 := (fi ! (i div 64)) OR push_bit (i mod 64) 1] else fi"
  from Suc.prems have b: "(i + k) div 64 < length fi" by simp
  have "i div 64 \<le> (i + k) div 64" by (rule div_le_mono) simp
  with b have bi: "i div 64 < length fi" by simp
  have "(Suc i + k - 1) div 64 < length ?fi \<or> k = 0" using b by simp
  from Suc.IH [OF this] have
    "get_bit (merge_bits k v ?fi (Suc i)) j
       = (get_bit ?fi j \<or> (Suc i \<le> j \<and> j < Suc i + k \<and> v j \<noteq> 0))" .
  moreover have "get_bit ?fi j = (get_bit fi j \<or> (j = i \<and> v j \<noteq> 0))"
    using get_bit_set [OF bi, of j] by auto
  ultimately show ?case by auto
qed

section \<open>The input merge computes the resolved bits\<close>

lemma manual_value_upd [simp]: "manual_value (a\<lparr>final_input := x\<rparr>) i = manual_value a i"
  by (simp add: manual_value_def)

lemma input_value_rec_upd [simp]: "input_value st (a\<lparr>final_input := x\<rparr>) i = input_value st a i"
  by (simp add: input_value_def cong: option.case_cong cell.case_cong if_cong)

lemma read_magic_upd:
  "st p = Some (Obj a) \<Longrightarrow> read_magic (st(p \<mapsto> Obj (a\<lparr>final_input := x\<rparr>))) q = read_magic st q"
  by (simp add: read_magic_def)

lemma input_value_store_upd:
  assumes "st p = Some (Obj a)"
  shows "input_value (st(p \<mapsto> Obj (a\<lparr>final_input := x\<rparr>))) b i = input_value st b i"
proof (cases "incoming_connections b")
  case None
  then show ?thesis by (simp add: input_value_def)
next
  case (Some ic)
  show ?thesis
  proof (cases "source_automaton (ic ! i)")
    case None
    with Some show ?thesis by (simp add: input_value_def)
  next
    case (Some q)
    show ?thesis
    proof (cases "q = p")
      case True
      with assms \<open>incoming_connections b = Some ic\<close> Some show ?thesis
        by (simp add: input_value_def read_magic_def cong: option.case_cong if_cong)
    next
      case False
      with assms \<open>incoming_connections b = Some ic\<close> Some show ?thesis
        by (simp add: input_value_def read_magic_def cong: option.case_cong if_cong)
    qed
  qed
qed

lemma final_input_same: "final_input a = Some fi \<Longrightarrow> a\<lparr>final_input := Some fi\<rparr> = a"
  by (cases a) simp

lemma ufi_iter_merge:
  assumes "st p = Some (Obj a)" and "final_input a = Some fi"
    and "input_value st a i = Some x" and "bit_word i = int (i div 64)"
    and "i div 64 < length fi"
  shows "ufi_iter st p i =
           Some (st(p \<mapsto> Obj (a\<lparr>final_input :=
             Some (if x \<noteq> 0 then fi[i div 64 := (fi ! (i div 64)) OR push_bit (i mod 64) 1]
                   else fi)\<rparr>)))"
proof (cases "x = 0")
  case True
  have "st(p \<mapsto> Obj a) = st" using assms(1) by (simp add: fun_upd_idem)
  with True assms show ?thesis
    by (simp add: ufi_iter_def final_input_same)
next
  case False
  with assms show ?thesis
    by (simp add: ufi_iter_def rd_nat wr_nat bit_pos_eq)
qed

lemma final_input_upd_upd:
  "(st(p \<mapsto> Obj (a\<lparr>final_input := y\<rparr>)))(p \<mapsto> Obj (a\<lparr>final_input := y, final_input := x\<rparr>))
     = st(p \<mapsto> Obj (a\<lparr>final_input := x\<rparr>))"
  by simp

lemma ufi_loop_merge:
  assumes "st p = Some (Obj a)" and "final_input a = Some fi"
    and "\<And>j. i \<le> j \<Longrightarrow> j < i + k \<Longrightarrow>
           input_value st a j = Some (v j) \<and> bit_word j = int (j div 64) \<and> j div 64 < length fi"
  shows "ufi_loop k st p i = Some (st(p \<mapsto> Obj (a\<lparr>final_input := Some (merge_bits k v fi i)\<rparr>)))"
  using assms
proof (induction k arbitrary: st a fi i)
  case 0
  have "st(p \<mapsto> Obj a) = st" using 0(1) by (simp add: fun_upd_idem)
  with 0 show ?case by (simp add: final_input_same)
next
  case (Suc k)
  let ?fi = "if v i \<noteq> 0 then fi[i div 64 := (fi ! (i div 64)) OR push_bit (i mod 64) 1] else fi"
  let ?a = "a\<lparr>final_input := Some ?fi\<rparr>"
  let ?st = "st(p \<mapsto> Obj ?a)"
  from Suc.prems(3) [of i] have h: "input_value st a i = Some (v i)"
    "bit_word i = int (i div 64)" "i div 64 < length fi" by simp_all
  from ufi_iter_merge [OF Suc.prems(1,2) h] have it: "ufi_iter st p i = Some ?st" .
  have p1: "?st p = Some (Obj ?a)" by simp
  have p2: "final_input ?a = Some ?fi" by simp
  have p3: "input_value ?st ?a j = Some (v j) \<and> bit_word j = int (j div 64)
              \<and> j div 64 < length ?fi"
    if "Suc i \<le> j" "j < Suc i + k" for j
  proof -
    from that Suc.prems(3) [of j] have "input_value st a j = Some (v j)"
      "bit_word j = int (j div 64)" "j div 64 < length fi" by simp_all
    moreover have "input_value ?st ?a j = input_value st a j"
      using input_value_store_upd [of st p a, OF Suc.prems(1)] by simp
    ultimately show ?thesis by simp
  qed
  from Suc.IH [of ?st ?a ?fi "Suc i", OF p1 p2 p3] have
    "ufi_loop k ?st p (Suc i) =
       Some (?st(p \<mapsto> Obj (?a\<lparr>final_input := Some (merge_bits k v ?fi (Suc i))\<rparr>)))"
    by blast
  then have "ufi_loop k ?st p (Suc i) =
       Some (st(p \<mapsto> Obj (a\<lparr>final_input := Some (merge_bits (Suc k) v fi i)\<rparr>)))"
    by (simp only: final_input_upd_upd merge_bits.simps)
  with it show ?case by (simp only: ufi_loop.simps option.case)
qed

lemma n_words_gt: "i < k \<Longrightarrow> k \<le> SIZE_MAX div 64 \<Longrightarrow> i div 64 < n_words k"
  by (simp add: n_words_eq)

lemma buffer_value:
  assumes "idx < INDEX_LIMIT" and "idx div 64 < length ws"
  shows "(case rd ws (bit_word idx) of
            None \<Rightarrow> None
          | Some x \<Rightarrow> Some (drop_bit (nat (bit_pos idx)) x AND 1))
         = Some (if get_bit ws idx then 1 else 0)"
  using assms by (simp add: bit_word_small rd_nat bit_pos_eq shifted_bit get_bit_def)

lemma manual_value_bit:
  assumes "manual_input a = Some mi" and "i < INDEX_LIMIT" and "i div 64 < length mi"
  shows "manual_value a i = Some (if get_bit mi i then 1 else 0)"
  using assms(1) buffer_value [OF assms(2,3)] by (simp add: manual_value_def)

lemma input_value_resolved:
  assumes ok: "moore_ok a" and i: "i < ma_n a" and lim: "ma_n a \<le> INDEX_LIMIT"
    and ic: "incoming_connections a = Some ic" and src: "source_ok st (ic ! i)"
  shows "input_value st a i = Some (if resolved_bit st a i then 1 else 0)"
proof -
  from ok i obtain mi where mi: "manual_input a = Some mi" "length mi = n_words (ma_n a)"
    by (auto simp: moore_ok_def dest: buf_lenD)
  from ok i ic have len: "length ic = ma_n a" and nmax: "ma_n a \<le> SIZE_MAX div 64"
    by (auto simp: moore_ok_def)
  from i lim have il: "i < INDEX_LIMIT" by simp
  from n_words_gt [OF i nmax] mi have "i div 64 < length mi" by simp
  from manual_value_bit [OF mi(1) il this]
  have man: "manual_value a i = Some (if get_bit mi i then 1 else 0)" .
  show ?thesis
  proof (cases "source_automaton (ic ! i)")
    case None
    with ic i len man mi show ?thesis
      by (simp add: input_value_def resolved_bit_def)
  next
    case (Some q)
    show ?thesis
    proof (cases "st q")
      case None
      with src Some show ?thesis by (simp add: source_ok_def)
    next
      case c: (Some cl)
      show ?thesis
      proof (cases cl)
        case Freed
        with src c Some show ?thesis by (simp add: source_ok_def)
      next
        case (Obj s)
        show ?thesis
        proof (cases "magic s = MOORE_MAGIC \<and> source_output_index (ic ! i) < ma_m s")
          case False
          with Obj c Some ic i len man mi show ?thesis
            by (auto simp: input_value_def resolved_bit_def read_magic_def Let_def
                  split: option.splits)
        next
          case True
          with src Some c Obj have sok: "moore_ok s" and sl: "ma_m s \<le> INDEX_LIMIT"
            by (simp_all add: source_ok_def)
          from sok obtain out where out: "output s = Some out" "length out = n_words (ma_m s)"
            by (auto simp: moore_ok_def dest: buf_lenD)
          from sok have mmax: "ma_m s \<le> SIZE_MAX div 64" by (simp add: moore_ok_def)
          from True have idx: "source_output_index (ic ! i) < ma_m s" by simp
          with sl have idl: "source_output_index (ic ! i) < INDEX_LIMIT" by simp
          from n_words_gt [OF idx mmax] out
          have "source_output_index (ic ! i) div 64 < length out" by simp
          from buffer_value [OF idl this] True Obj c Some ic i len mi out show ?thesis
            by (simp add: input_value_def resolved_bit_def read_magic_def)
        qed
      qed
    qed
  qed
qed

lemma get_bit_zero: "i div 64 < k \<Longrightarrow> \<not> get_bit (replicate k 0) i"
  by (simp add: get_bit_def)

text \<open>
  The input merge on a live automaton with inputs, for widths below \<open>INDEX_LIMIT\<close>:
  the call returns, only the final-input buffer changes, it has its \<open>ceil(n/64)\<close> words,
  bit \<open>i < n\<close> is the resolved bit, and the bits from \<open>n\<close> on are zero.
\<close>

lemma update_final_input_resolved:
  assumes cell: "st p = Some (Obj a)" and ok: "moore_ok a" and n: "0 < ma_n a"
    and lim: "ma_n a \<le> INDEX_LIMIT"
    and srcs: "list_all (source_ok st) (the (incoming_connections a))"
  shows "\<exists>fi. update_final_input st (Some p) = Some (st(p \<mapsto> Obj (a\<lparr>final_input := Some fi\<rparr>)))
           \<and> length fi = n_words (ma_n a)
           \<and> (\<forall>i. i < ma_n a \<longrightarrow> get_bit fi i = resolved_bit st a i)
           \<and> (\<forall>i. ma_n a \<le> i \<longrightarrow> i < 64 * n_words (ma_n a) \<longrightarrow> \<not> get_bit fi i)"
proof -
  let ?nw = "n_words (ma_n a)"
  let ?v = "\<lambda>j. if resolved_bit st a j then 1 else (0::u64)"
  let ?z = "replicate ?nw (0::u64)"
  from ok n obtain mi f ic where mi: "manual_input a = Some mi"
    and f: "final_input a = Some f" "length f = ?nw"
    and ic: "incoming_connections a = Some ic" "length ic = ma_n a"
    by (auto simp: moore_ok_def dest!: buf_lenD)
  from ok have nmax: "ma_n a \<le> SIZE_MAX div 64" by (simp add: moore_ok_def)
  let ?a0 = "a\<lparr>final_input := Some ?z\<rparr>"
  let ?st0 = "st(p \<mapsto> Obj ?a0)"
  have u: "update_final_input st (Some p) = ufi_loop (ma_n a) ?st0 p 0"
    using cell n mi f ic by (simp add: update_final_input_def)
  have p1: "?st0 p = Some (Obj ?a0)" by simp
  have p2: "final_input ?a0 = Some ?z" by simp
  have p3: "input_value ?st0 ?a0 j = Some (?v j) \<and> bit_word j = int (j div 64)
              \<and> j div 64 < length ?z"
    if "0 \<le> j" "j < 0 + ma_n a" for j
  proof -
    from that have j: "j < ma_n a" by simp
    from srcs ic j have "source_ok st (ic ! j)" by (simp add: list_all_length)
    from input_value_resolved [OF ok j lim ic(1) this]
    have "input_value st a j = Some (?v j)" .
    moreover have "input_value ?st0 ?a0 j = input_value st a j"
      using input_value_store_upd [of st p a, OF cell] by simp
    moreover from j lim have "bit_word j = int (j div 64)" by (simp add: bit_word_small)
    moreover from n_words_gt [OF j nmax] have "j div 64 < length ?z" by simp
    ultimately show ?thesis by simp
  qed
  from ufi_loop_merge [of ?st0 p ?a0 ?z 0 "ma_n a" ?v, OF p1 p2 p3]
  have "ufi_loop (ma_n a) ?st0 p 0 =
      Some (?st0(p \<mapsto> Obj (?a0\<lparr>final_input := Some (merge_bits (ma_n a) ?v ?z 0)\<rparr>)))"
    by blast
  with u have r: "update_final_input st (Some p) =
      Some (st(p \<mapsto> Obj (a\<lparr>final_input := Some (merge_bits (ma_n a) ?v ?z 0)\<rparr>)))"
    by (simp only: final_input_upd_upd)
  have l: "length (merge_bits (ma_n a) ?v ?z 0) = ?nw"
    by (simp add: length_merge_bits)
  from n have "ma_n a - 1 < ma_n a" by simp
  from n_words_gt [OF this nmax] have "(0 + ma_n a - 1) div 64 < length ?z \<or> ma_n a = 0"
    by simp
  note g = get_bit_merge_bits [OF this, of ?v]
  have b1: "get_bit (merge_bits (ma_n a) ?v ?z 0) i = resolved_bit st a i" if "i < ma_n a" for i
    using g [of i] that get_bit_zero [OF n_words_gt [OF that nmax]] by simp
  have b2: "\<not> get_bit (merge_bits (ma_n a) ?v ?z 0) i"
    if "ma_n a \<le> i" "i < 64 * ?nw" for i
  proof -
    from that(2) have "i div 64 < ?nw" by (simp add: less_mult_imp_div_less mult.commute)
    from get_bit_zero [OF this] g [of i] that(1) show ?thesis by simp
  qed
  from r l b1 b2 show ?thesis by blast
qed

section \<open>A source wider than the index range of \<^verbatim>\<open>bit_word\<close>\<close>

lemma length_wide_out: "length wide_out = 4294967297"
  by (simp add: wide_out_def)

lemma wide_out_0: "wide_out ! 0 = 1"
  by (simp add: wide_out_def)

lemma wide_out_last: "wide_out ! 4294967296 = 0"
  by (simp add: wide_out_def)

lemma wide_S_ok: "moore_ok wide_S"
  by (simp add: moore_ok_def wide_S_def buf_len_def n_words_def size_add_def SIZE_MAX_def
        length_wide_out)

lemma wide_T_ok: "moore_ok wide_T"
  by (simp add: moore_ok_def wide_T_def buf_len_def n_words_def size_add_def SIZE_MAX_def)

lemma bit_word_wide: "bit_word 274877906944 = 0"
  by (simp add: bit_word_def)

lemma bit_pos_wide: "bit_pos 274877906944 = 0"
  by (simp add: bit_pos_def)

lemma wide_update_final_input:
  "update_final_input wide_store (Some 10) =
     Some (wide_store(10 \<mapsto> Obj (wide_T\<lparr>final_input := Some [1]\<rparr>)))"
  by (simp add: update_final_input_def wide_store_def wide_T_def wide_S_def n_words_def
        size_add_def ufi_iter_def input_value_def manual_value_def read_magic_def
        bit_word_wide bit_pos_wide rd_def wr_def length_wide_out wide_out_0
        bit_word_def bit_pos_def)

lemma wide_resolved_bit: "\<not> resolved_bit wide_store wide_T 0"
  by (simp add: resolved_bit_def wide_store_def wide_T_def wide_S_def get_bit_def
        wide_out_last MOORE_MAGIC_def)

lemma wide_zero_out: "(replicate 4294967297 (0::u64))[0 := 1] = wide_out"
proof -
  have "replicate 4294967297 (0::u64) = 0 # replicate 4294967296 0"
    by (simp add: replicate_Suc [symmetric] del: replicate_Suc)
  then show ?thesis by (simp add: wide_out_def)
qed

text \<open>The network is built by two constructions and one connection.\<close>

lemma wide_store_reachable:
  "\<exists>st1 st2.
     ma_create_full Map.empty (Some 20) (\<lambda>k. True) 0 274877906945 1 (Some latch_t)
       (Some first_out_y) (Some [0]) = Some (Inr 20, st1)
     \<and> ma_create_full st1 (Some 10) (\<lambda>k. True) 1 1 1 (Some latch_t) (Some identity_func)
         (Some [0]) = Some (Inr 10, st2)
     \<and> ma_connect st2 True (Some 10) 0 (Some 20) 274877906944 1 = Some (Inr (), wide_store)"
proof -
  let ?st1 = "Map.empty(20 \<mapsto> Obj (wide_S\<lparr>
        connected_to_me := Some (replicate 8 None), connected_to_me_count := 0\<rparr>))"
  let ?st2 = "?st1(10 \<mapsto> Obj (wide_T\<lparr>incoming_connections := Some [empty_connection]\<rparr>))"
  have nw: "n_words 274877906945 = 4294967297" "n_words (Suc 0) = Suc 0"
    by (simp_all add: n_words_def size_add_def)
  have c1: "ma_create_full Map.empty (Some 20) (\<lambda>k. True) 0 274877906945 1
      (Some latch_t) (Some first_out_y) (Some [0]) = Some (Inr 20, ?st1)"
    by (simp add: ma_create_full_def Let_def nw SIZE_MAX_def memcpy_words_def wide_S_def
          first_out_y_def wide_zero_out INIT_CONNECTION_CAPACITY_def)
  have c2: "ma_create_full ?st1 (Some 10) (\<lambda>k. True) 1 1 1 (Some latch_t)
      (Some identity_func) (Some [0]) = Some (Inr 10, ?st2)"
    by (simp add: ma_create_full_def Let_def nw SIZE_MAX_def memcpy_words_def wide_T_def
          identity_func_def INIT_CONNECTION_CAPACITY_def)
  have r8: "(replicate 8 None)[0 := Some (10::nat)] = Some 10 # replicate 7 None"
    by code_simp
  have c3: "ma_connect ?st2 True (Some 10) 0 (Some 20) 274877906944 1 = Some (Inr (), wide_store)"
    by (simp add: r8 ma_connect_def wide_T_def wide_S_def connect_slots_def
          append_to_connected_list_def Let_def size_add_def wide_store_def fun_upd_twist)
  from c1 c2 c3 show ?thesis by blast
qed

lemma wide_store_10: "wide_store 10 = Some (Obj wide_T)"
  by (simp add: wide_store_def)

lemma wide_store_20: "wide_store 20 = Some (Obj wide_S)"
  by (simp add: wide_store_def)

lemma wide_out_bit: "\<not> get_bit wide_out 274877906944"
  by (simp add: get_bit_def wide_out_last)

text \<open>
  Claim C2 (input resolution: a connected bit is the bit of the recorded index in the
  output buffer of the live source). Both automata of the wide network are live and well
  formed, slot 0 of the target records output \<open>2 ^ 38\<close> of the source, which is inside the
  output width \<open>2 ^ 38 + 1\<close>, and that output bit is 0. \<^verbatim>\<open>update_final_input\<close> on the
  target returns with bit 0 of the final-input buffer set to 1: \<^verbatim>\<open>bit_word\<close> has cut the
  word index \<open>2 ^ 32\<close> to the \<^verbatim>\<open>int\<close> 0 and the code has read output bit 0 of the source.
\<close>

theorem merge_wide_source:
  "moore_ok wide_T \<and> moore_ok wide_S
   \<and> wide_store 10 = Some (Obj wide_T) \<and> wide_store 20 = Some (Obj wide_S)
   \<and> incoming_connections wide_T =
        Some [\<lparr>source_automaton = Some 20, source_output_index = 274877906944\<rparr>]
   \<and> 274877906944 < ma_m wide_S \<and> output wide_S = Some wide_out
   \<and> \<not> get_bit wide_out 274877906944
   \<and> \<not> resolved_bit wide_store wide_T 0
   \<and> update_final_input wide_store (Some 10) =
        Some (wide_store(10 \<mapsto> Obj (wide_T\<lparr>final_input := Some [1]\<rparr>)))
   \<and> get_bit [1] 0"
proof -
  have "incoming_connections wide_T =
        Some [\<lparr>source_automaton = Some 20, source_output_index = 274877906944\<rparr>]"
    by (simp add: wide_T_def)
  moreover have "274877906944 < ma_m wide_S \<and> output wide_S = Some wide_out"
    by (simp add: wide_S_def)
  moreover have "get_bit [1] 0" by (simp add: get_bit_def)
  ultimately show ?thesis
    using wide_T_ok wide_S_ok wide_store_10 wide_store_20 wide_out_bit wide_resolved_bit
      wide_update_final_input
    by (intro conjI) simp_all
qed

lemma wide_step:
  "ma_step wide_store (Some [Some 10]) =
     Some (Inr (), wide_store(10 \<mapsto> Obj (wide_T\<lparr>final_input := Some [1], state := Some [1],
       output := Some [1]\<rparr>)))"
proof -
  let ?st1 = "wide_store(10 \<mapsto> Obj (wide_T\<lparr>final_input := Some [1]\<rparr>))"
  let ?st2 = "wide_store(10 \<mapsto> Obj (wide_T\<lparr>final_input := Some [1], next_state := Some [1]\<rparr>))"
  let ?st3 = "wide_store(10 \<mapsto> Obj (wide_T\<lparr>final_input := Some [1], state := Some [1],
       output := Some [1]\<rparr>))"
  have nw: "n_words (Suc 0) = Suc 0" by (simp add: n_words_def size_add_def)
  have i: "step_inputs wide_store [Some 10] = Some (True, ?st1)"
    by (simp add: wide_update_final_input)
  have t: "step_transitions ?st1 [Some 10] = Some ?st2"
    by (simp add: do_transition_def wide_T_def latch_t_def)
  have c: "step_commit ?st2 [Some 10] = Some ?st3"
    by (simp add: do_commit_def wide_T_def identity_func_def nw Let_def)
  show ?thesis
    unfolding ma_step_def
    by (simp add: i t c del: step_inputs.simps step_transitions.simps step_commit.simps)
qed

text \<open>
  Claim C1 (during a step, the final-input bit of a connected slot is the bit of the
  recorded index in the output buffer of the source as it was before the step). In the
  wide network a step of the target returns 0; the final-input buffer that its transition
  function has consumed has bit 0 set (the latch has stored the word 1 as new state),
  although output \<open>2 ^ 38\<close> of the live source, which the slot records, was 0 before the
  step and the source has not changed.
\<close>

theorem step_wide_source:
  "\<exists>st' a'. ma_step wide_store (Some [Some 10]) = Some (Inr (), st')
     \<and> st' 10 = Some (Obj a') \<and> final_input a' = Some [1] \<and> state a' = Some [1]
     \<and> get_bit [1] 0
     \<and> st' 20 = wide_store 20 \<and> wide_store 20 = Some (Obj wide_S)
     \<and> magic wide_S = MOORE_MAGIC \<and> 274877906944 < ma_m wide_S
     \<and> output wide_S = Some wide_out \<and> \<not> get_bit wide_out 274877906944"
proof -
  let ?a = "wide_T\<lparr>final_input := Some [1], state := Some [1], output := Some [1]\<rparr>"
  let ?st = "wide_store(10 \<mapsto> Obj ?a)"
  have "?st 10 = Some (Obj ?a) \<and> final_input ?a = Some [1] \<and> state ?a = Some [1]"
    by simp
  moreover have "get_bit [1] 0" by (simp add: get_bit_def)
  moreover have "?st 20 = wide_store 20" by simp
  moreover have "magic wide_S = MOORE_MAGIC \<and> 274877906944 < ma_m wide_S
     \<and> output wide_S = Some wide_out"
    by (simp add: wide_S_def)
  ultimately show ?thesis
    using wide_step wide_store_20 wide_out_bit by blast
qed

section \<open>Connections\<close>

lemma connect_einval_unchanged:
  "ma_connect st realloc_ok a_in in_index a_out out_index num = Some (Inl EINVAL, st') \<Longrightarrow>
   st' = st"
  by (auto simp: ma_connect_def append_to_connected_list_def Let_def
        split: option.splits cell.splits if_splits)

lemma two_source_connect:
  "ma_connect two_source_store True (Some 10) 0 (Some 30) 0 1 =
     Some (Inr (), two_source_store
       (10 \<mapsto> Obj (ex_T\<lparr>incoming_connections :=
                Some [\<lparr>source_automaton = Some 30, source_output_index = 0\<rparr>]\<rparr>),
        30 \<mapsto> Obj (ex_B\<lparr>connected_to_me := Some (Some 10 # replicate 7 None),
                connected_to_me_count := 1\<rparr>)))"
proof -
  have r8: "(replicate 8 None)[0 := Some (10::nat)] = Some 10 # replicate 7 None"
    by code_simp
  show ?thesis
    by (simp add: r8 ma_connect_def two_source_store_def ex_store_def ex_T_def ex_B_def
          connect_slots_def append_to_connected_list_def Let_def size_add_def)
qed

lemma full_connect:
  "ma_connect full_store False (Some 10) 0 (Some 20) 0 1 =
     Some (Inl ENOMEM, full_store
       (10 \<mapsto> Obj (free_T\<lparr>incoming_connections :=
                Some [\<lparr>source_automaton = Some 20, source_output_index = 0\<rparr>]\<rparr>)))"
  by (simp add: ma_connect_def full_store_def free_T_def full_S_def
        connect_slots_def append_to_connected_list_def Let_def)

lemma full_cells_ok: "moore_ok free_T \<and> moore_ok full_S \<and> moore_ok full_dep"
  by (simp add: moore_ok_def free_T_def full_S_def full_dep_def buf_len_def n_words_def
        size_add_def SIZE_MAX_def)

lemma ex_B_ok: "moore_ok ex_B"
  by (simp add: moore_ok_def ex_B_def buf_len_def n_words_def size_add_def SIZE_MAX_def)

text \<open>
  \<^verbatim>\<open>ma_disconnect\<close> does the cleanup: when the only slot of the target that names the
  source is cleared, the target leaves the list of dependents of the source.
\<close>

lemma disconnect_removes_dependent:
  "\<exists>st' t' s'. ma_disconnect ex_store (\<lambda>k. True) (Some 10) 0 1 = Some (Inr (), st')
     \<and> st' 10 = Some (Obj t') \<and> sources t' = [None]
     \<and> st' 20 = Some (Obj s') \<and> dependents s' = []"
  by (simp add: ma_disconnect_def ex_store_def ex_T_def ex_S_def clear_slots_def
        collect_sources_def remove_connected_def empty_connection_def sources_def
        dependents_def)

text \<open>
  Claim C3 (the list of dependents of a live automaton is the set of live automata with
  a slot whose source it is; a connect that overwrites the last slot naming the old
  source removes the target from the list of the old source). In the network
  \<open>two_source_store\<close> the only slot of the target names the source at address 20, whose
  list of dependents is the target. \<^verbatim>\<open>ma_connect\<close> of that slot to the source at address
  30 returns 0; afterwards no slot of the target names the source at address 20, and
  that source is unchanged: its list of dependents still holds the target.
\<close>

theorem connect_overwrite_keeps_dependent:
  "two_source_store 10 = Some (Obj ex_T) \<and> sources ex_T = [Some 20]
   \<and> two_source_store 20 = Some (Obj ex_S) \<and> dependents ex_S = [Some 10]
   \<and> moore_ok ex_T \<and> moore_ok ex_S \<and> moore_ok ex_B
   \<and> (\<exists>st' t'. ma_connect two_source_store True (Some 10) 0 (Some 30) 0 1 = Some (Inr (), st')
         \<and> st' 10 = Some (Obj t') \<and> magic t' = MOORE_MAGIC \<and> sources t' = [Some 30]
         \<and> st' 20 = Some (Obj ex_S))"
proof -
  have a: "two_source_store 10 = Some (Obj ex_T) \<and> two_source_store 20 = Some (Obj ex_S)"
    by (simp add: two_source_store_def ex_store_def)
  have b: "sources ex_T = [Some 20] \<and> dependents ex_S = [Some 10]"
    by (simp add: sources_def dependents_def ex_T_def ex_S_def)
  let ?t = "ex_T\<lparr>incoming_connections :=
                Some [\<lparr>source_automaton = Some 30, source_output_index = 0\<rparr>]\<rparr>"
  let ?st = "two_source_store(10 \<mapsto> Obj ?t,
        30 \<mapsto> Obj (ex_B\<lparr>connected_to_me := Some (Some 10 # replicate 7 None),
                connected_to_me_count := 1\<rparr>))"
  have c: "?st 10 = Some (Obj ?t) \<and> magic ?t = MOORE_MAGIC \<and> sources ?t = [Some 30]
      \<and> ?st 20 = Some (Obj ex_S)"
    by (simp add: sources_def two_source_store_def ex_store_def ex_T_def)
  from two_source_connect c have
    "\<exists>st' t'. ma_connect two_source_store True (Some 10) 0 (Some 30) 0 1 = Some (Inr (), st')
         \<and> st' 10 = Some (Obj t') \<and> magic t' = MOORE_MAGIC \<and> sources t' = [Some 30]
         \<and> st' 20 = Some (Obj ex_S)"
    by blast
  with a b ex_T_ok ex_S_ok ex_B_ok show ?thesis by (intro conjI) simp_all
qed

text \<open>
  Claim C4 (a connect that fails leaves the slots of the target and the list of
  dependents of the source as they were). In the network \<open>full_store\<close> the list of the
  source is full. When the reallocation fails, \<^verbatim>\<open>ma_connect\<close> returns -1 with
  \<^verbatim>\<open>ENOMEM\<close>; the source is unchanged and does not list the target, but slot 0 of the
  target, empty before the call, names the source after it.
\<close>

theorem connect_enomem_partial:
  "full_store 10 = Some (Obj free_T) \<and> full_store 20 = Some (Obj full_S)
   \<and> moore_ok free_T \<and> moore_ok full_S
   \<and> sources free_T = [None] \<and> Some 10 \<notin> set (dependents full_S)
   \<and> ma_connect full_store False (Some 10) 0 (Some 20) 0 1 =
       Some (Inl ENOMEM, full_store
         (10 \<mapsto> Obj (free_T\<lparr>incoming_connections :=
                  Some [\<lparr>source_automaton = Some 20, source_output_index = 0\<rparr>]\<rparr>)))
   \<and> sources (free_T\<lparr>incoming_connections :=
                  Some [\<lparr>source_automaton = Some 20, source_output_index = 0\<rparr>]\<rparr>) = [Some 20]"
proof -
  have a: "full_store 10 = Some (Obj free_T) \<and> full_store 20 = Some (Obj full_S)"
    by (simp add: full_store_def)
  have b: "sources free_T = [None] \<and> Some 10 \<notin> set (dependents full_S)"
    by (simp add: sources_def dependents_def free_T_def full_S_def empty_connection_def)
  have c: "sources (free_T\<lparr>incoming_connections :=
                  Some [\<lparr>source_automaton = Some 20, source_output_index = 0\<rparr>]\<rparr>) = [Some 20]"
    by (simp add: sources_def)
  from a b c full_cells_ok full_connect show ?thesis by (intro conjI) simp_all
qed

section \<open>Writes to state and output buffers\<close>

lemma ex_set_state:
  "ma_set_state ex_store (Some 10) (Some [3]) =
     Some (Inr (), ex_store(10 \<mapsto> Obj (ex_T\<lparr>state := Some [3], output := Some [1]\<rparr>)))"
proof -
  have nw: "n_words (Suc 0) = Suc 0" by (simp add: n_words_def size_add_def)
  show ?thesis
    by (simp add: ma_set_state_def ex_store_def ex_T_def memcpy_words_def nw identity_func_def
          Let_def)
qed

lemma masked_word: "drop_bit u ((x::u64) AND (push_bit u 1 - 1)) = 0"
proof -
  have "push_bit u (1::u64) - 1 = mask u"
    by (simp add: mask_eq_exp_minus_1 push_bit_eq_mult)
  then show ?thesis
    by (simp add: take_bit_eq_mask [symmetric] drop_bit_take_bit)
qed

lemma identity_func_masks:
  assumes "0 < s" and "s \<le> SIZE_MAX div 64" and "n_words s \<le> length cs"
    and "length out = n_words s"
  shows "high_bits_zero s (identity_func out cs s s)"
proof (cases "s mod 64 = 0")
  case True
  then show ?thesis by (simp add: high_bits_zero_def)
next
  case False
  from assms(1,2) have "0 < n_words s" by (simp add: n_words_eq)
  let ?o = "take (n_words s) cs @ drop (n_words s) out"
  let ?k = "n_words s - 1"
  from \<open>0 < n_words s\<close> assms(3) have len: "?k < length ?o" by simp
  have "identity_func out cs s s = ?o[?k := (?o ! ?k) AND (push_bit (s mod 64) 1 - 1)]"
    using False assms(1) \<open>0 < n_words s\<close> by (simp only: identity_func_def Let_def) simp
  then have "identity_func out cs s s ! ?k = (?o ! ?k) AND (push_bit (s mod 64) 1 - 1)"
    using len by (simp only: nth_list_update_eq)
  then have "drop_bit (s mod 64) (identity_func out cs s s ! ?k) = 0"
    by (simp only: masked_word)
  then show ?thesis by (simp only: high_bits_zero_def) simp
qed

lemma set_state_writes:
  assumes "st p = Some (Obj a)" and "moore_ok a" and "n_words (ma_s a) \<le> length ws"
  shows "\<exists>a'. ma_set_state st (Some p) (Some ws) = Some (Inr (), st(p \<mapsto> Obj a'))
           \<and> state a' = Some (take (n_words (ma_s a)) ws)
           \<and> (ma_y a = identity_func \<and> ma_m a = ma_s a \<longrightarrow>
                (\<exists>out. output a' = Some out \<and> high_bits_zero (ma_m a) out))"
proof -
  let ?k = "n_words (ma_s a)"
  from assms(2) obtain cs out where cs: "state a = Some cs" "length cs = ?k"
    and out: "output a = Some out" "length out = n_words (ma_m a)"
    by (auto simp: moore_ok_def dest!: buf_lenD)
  let ?a = "a\<lparr>state := Some (take ?k ws), output := Some (ma_y a out (take ?k ws) (ma_m a) (ma_s a))\<rparr>"
  have r: "ma_set_state st (Some p) (Some ws) = Some (Inr (), st(p \<mapsto> Obj ?a))"
    using assms(1,3) cs out by (simp add: ma_set_state_def memcpy_words_def)
  have "high_bits_zero (ma_m a) (ma_y a out (take ?k ws) (ma_m a) (ma_s a))"
    if "ma_y a = identity_func" "ma_m a = ma_s a"
  proof -
    from assms(2) have "0 < ma_s a" "ma_s a \<le> SIZE_MAX div 64" by (simp_all add: moore_ok_def)
    moreover from assms(3) have "?k \<le> length (take ?k ws)" by simp
    moreover from out that have "length out = ?k" by simp
    ultimately have "high_bits_zero (ma_s a) (identity_func out (take ?k ws) (ma_s a) (ma_s a))"
      by (rule identity_func_masks)
    with that show ?thesis by simp
  qed
  then have "ma_y a = identity_func \<and> ma_m a = ma_s a \<longrightarrow>
      (\<exists>o'. output ?a = Some o' \<and> high_bits_zero (ma_m a) o')"
    by simp
  moreover have "state ?a = Some (take ?k ws)" by simp
  ultimately show ?thesis using r by blast
qed

lemma commit_writes:
  assumes "st p = Some (Obj a)" and "moore_ok a"
  shows "\<exists>a'. do_commit st (Some p) = Some (st(p \<mapsto> Obj a'))
           \<and> state a' = next_state a \<and> next_state a' = state a
           \<and> (ma_y a = identity_func \<and> ma_m a = ma_s a \<longrightarrow>
                (\<exists>out. output a' = Some out \<and> high_bits_zero (ma_m a) out))"
proof -
  let ?k = "n_words (ma_s a)"
  from assms(2) obtain cs ns out where cs: "state a = Some cs" "length cs = ?k"
    and ns: "next_state a = Some ns" "length ns = ?k"
    and out: "output a = Some out" "length out = n_words (ma_m a)"
    by (auto simp: moore_ok_def dest!: buf_lenD)
  let ?a = "a\<lparr>state := Some ns, next_state := Some cs,
              output := Some (ma_y a out ns (ma_m a) (ma_s a))\<rparr>"
  have r: "do_commit st (Some p) = Some (st(p \<mapsto> Obj ?a))"
    using assms(1) cs ns out by (simp add: do_commit_def Let_def)
  have "high_bits_zero (ma_m a) (ma_y a out ns (ma_m a) (ma_s a))"
    if "ma_y a = identity_func" "ma_m a = ma_s a"
  proof -
    from assms(2) have "0 < ma_s a" "ma_s a \<le> SIZE_MAX div 64" by (simp_all add: moore_ok_def)
    moreover from ns have "?k \<le> length ns" by simp
    moreover from out that have "length out = ?k" by simp
    ultimately have "high_bits_zero (ma_s a) (identity_func out ns (ma_s a) (ma_s a))"
      by (rule identity_func_masks)
    with that show ?thesis by simp
  qed
  then have "ma_y a = identity_func \<and> ma_m a = ma_s a \<longrightarrow>
      (\<exists>o'. output ?a = Some o' \<and> high_bits_zero (ma_m a) o')"
    by simp
  moreover have "state ?a = next_state a \<and> next_state ?a = state a" using cs ns by simp
  ultimately show ?thesis using r by blast
qed

lemma create_full_writes:
  assumes "ma_create_full st new ok n m s t y q = Some (Inr p, st')"
  shows "\<exists>yf qs a'. y = Some yf \<and> q = Some qs \<and> st' p = Some (Obj a')
           \<and> state a' = Some (take (n_words s) qs)
           \<and> (yf = identity_func \<and> m = s \<longrightarrow>
                (\<exists>out. output a' = Some out \<and> high_bits_zero m out))"
proof -
  from assms obtain tf yf qs where y: "y = Some yf" and q: "q = Some qs"
    and len: "n_words s \<le> length qs" and s: "0 < s" "s \<le> SIZE_MAX div 64" and m: "0 < m"
    by (auto simp: ma_create_full_def Let_def memcpy_words_def split: option.splits if_splits)
  from assms y q obtain a' where a': "st' p = Some (Obj a')"
    "state a' = Some (take (n_words s) qs)"
    "output a' = Some (yf (replicate (n_words m) 0) (take (n_words s) qs) m s)"
    by (auto simp: ma_create_full_def Let_def memcpy_words_def split: option.splits if_splits)
  have "high_bits_zero m (yf (replicate (n_words m) 0) (take (n_words s) qs) m s)"
    if "yf = identity_func" "m = s"
  proof -
    from len have "n_words s \<le> length (take (n_words s) qs)" by simp
    moreover have "length (replicate (n_words s) (0::u64)) = n_words s" by simp
    ultimately have "high_bits_zero s
        (identity_func (replicate (n_words s) 0) (take (n_words s) qs) s s)"
      using s by (intro identity_func_masks)
    with that show ?thesis by simp
  qed
  with y q a' show ?thesis by auto
qed

text \<open>
  Claim C5, as stated (after any write to a state or output buffer the unused high bits
  of its last word are zero), fails: \<^verbatim>\<open>ma_set_state\<close> on the live automaton at address 10,
  whose state has one bit, with the word 3 returns 0 and leaves the word 3 in the state
  buffer, bit 1 set.
\<close>

theorem set_state_high_bits_counterexample:
  "ex_store 10 = Some (Obj ex_T) \<and> moore_ok ex_T \<and> ma_s ex_T = 1
   \<and> ma_set_state ex_store (Some 10) (Some [3]) =
       Some (Inr (), ex_store(10 \<mapsto> Obj (ex_T\<lparr>state := Some [3], output := Some [1]\<rparr>)))
   \<and> \<not> high_bits_zero 1 [3]"
proof -
  have "ma_s ex_T = 1" by (simp add: ex_T_def)
  moreover have "\<not> high_bits_zero 1 [3]"
    by (simp add: high_bits_zero_def n_words_def size_add_def drop_bit_eq_div)
  ultimately show ?thesis
    using ex_store_1 ex_T_ok ex_set_state by (intro conjI) simp_all
qed

text \<open>
  Claim C5, amended. \<^verbatim>\<open>ma_set_state\<close> and \<^verbatim>\<open>ma_create_full\<close> copy the \<open>ceil(s/64)\<close> words
  of the caller's array into the state buffer as they are, and the commit of a step makes
  the next-state buffer, as the transition function has left it, the state buffer: the
  library masks no state word. The output buffer holds what the output function writes;
  when that is the identity function of the library and \<open>m = s\<close> (the automata of
  \<^verbatim>\<open>ma_create_simple\<close>), the unused high bits of the last word of the output buffer are
  zero after each of the three writes.
\<close>

theorem buffer_writes_unmasked:
  assumes "st p = Some (Obj a)" and "moore_ok a"
  shows "(\<forall>ws. n_words (ma_s a) \<le> length ws \<longrightarrow>
            (\<exists>a'. ma_set_state st (Some p) (Some ws) = Some (Inr (), st(p \<mapsto> Obj a'))
               \<and> state a' = Some (take (n_words (ma_s a)) ws)
               \<and> (ma_y a = identity_func \<and> ma_m a = ma_s a \<longrightarrow>
                    (\<exists>out. output a' = Some out \<and> high_bits_zero (ma_m a) out))))
         \<and> (\<exists>a'. do_commit st (Some p) = Some (st(p \<mapsto> Obj a'))
               \<and> state a' = next_state a \<and> next_state a' = state a
               \<and> (ma_y a = identity_func \<and> ma_m a = ma_s a \<longrightarrow>
                    (\<exists>out. output a' = Some out \<and> high_bits_zero (ma_m a) out)))
         \<and> (\<forall>st0 new ok n m s t y q p' st'.
               ma_create_full st0 new ok n m s t y q = Some (Inr p', st') \<longrightarrow>
               (\<exists>yf qs a'. y = Some yf \<and> q = Some qs \<and> st' p' = Some (Obj a')
                  \<and> state a' = Some (take (n_words s) qs)
                  \<and> (yf = identity_func \<and> m = s \<longrightarrow>
                       (\<exists>out. output a' = Some out \<and> high_bits_zero m out))))"
  using set_state_writes [of st p a, OF assms] commit_writes [of st p a, OF assms]
    create_full_writes
  by (intro conjI allI impI) blast+

theorem buffer_writes_unmasked_witness:
  "ex_store 10 = Some (Obj ex_T) \<and> moore_ok ex_T
   \<and> n_words (ma_s ex_T) \<le> length [3 :: u64]
   \<and> ma_y ex_T = identity_func \<and> ma_m ex_T = ma_s ex_T
   \<and> ma_set_state ex_store (Some 10) (Some [3]) =
       Some (Inr (), ex_store(10 \<mapsto> Obj (ex_T\<lparr>state := Some [3], output := Some [1]\<rparr>)))
   \<and> high_bits_zero (ma_m ex_T) [1]"
proof -
  let ?a = "ex_T\<lparr>state := Some [3], output := Some [1]\<rparr>"
  have l: "n_words (ma_s ex_T) \<le> length [3 :: u64]"
    by (simp add: ex_T_def n_words_def size_add_def)
  have y: "ma_y ex_T = identity_func \<and> ma_m ex_T = ma_s ex_T" by (simp add: ex_T_def)
  from buffer_writes_unmasked [of ex_store 10 ex_T, OF ex_store_1 ex_T_ok] l y
  obtain a' out where r: "ma_set_state ex_store (Some 10) (Some [3]) =
      Some (Inr (), ex_store(10 \<mapsto> Obj a'))"
    and o: "output a' = Some out" "high_bits_zero (ma_m ex_T) out"
    by blast
  from r ex_set_state have "ex_store(10 \<mapsto> Obj a') = ex_store(10 \<mapsto> Obj ?a)" by simp
  then have "(ex_store(10 \<mapsto> Obj a')) 10 = (ex_store(10 \<mapsto> Obj ?a)) 10" by (rule arg_cong)
  then have "a' = ?a" by simp
  with o have "high_bits_zero (ma_m ex_T) [1]" by simp
  with ex_store_1 ex_T_ok l y ex_set_state show ?thesis by (intro conjI) simp_all
qed

section \<open>The order of the array of a step\<close>

lemma each_Nil [simp]: "each f [] r = r"
  by (simp add: each_def)

lemma each_Cons [simp]: "each f (a # ps) r = each f ps (case r of None \<Rightarrow> None | Some s \<Rightarrow> f s a)"
  by (simp add: each_def)

lemma each_None [simp]: "each f ps None = None"
  by (induction ps) simp_all

lemma step_transitions_each: "step_transitions st ps = each do_transition ps (Some st)"
  by (induction ps arbitrary: st) (simp_all split: option.splits)

lemma step_commit_each: "step_commit st ps = each do_commit ps (Some st)"
  by (induction ps arbitrary: st) (simp_all split: option.splits)

lemma step_inputs_each:
  "None \<notin> set ps \<Longrightarrow>
   step_inputs st ps = map_option (Pair True) (each update_final_input ps (Some st))"
proof (induction st ps rule: step_inputs.induct)
  case (1 st)
  then show ?case by simp
next
  case (2 st ps)
  then show ?case by simp
next
  case (3 st p ps)
  then show ?case by (simp split: option.splits)
qed

lemma each_permute:
  assumes comm: "\<And>s a b. (case f s a of None \<Rightarrow> None | Some s' \<Rightarrow> f s' b)
                          = (case f s b of None \<Rightarrow> None | Some s' \<Rightarrow> f s' a)"
    and "mset ps' = mset ps"
  shows "each f ps' r = each f ps r"
proof -
  let ?g = "\<lambda>a r. case r of None \<Rightarrow> None | Some s \<Rightarrow> f s a"
  have c: "?g a \<circ> ?g b = ?g b \<circ> ?g a" for a b
  proof
    fix r
    show "(?g a \<circ> ?g b) r = (?g b \<circ> ?g a) r"
      using comm [where a = b and b = a] by (cases r) simp_all
  qed
  have "fold ?g ps' = fold ?g ps"
    by (rule fold_multiset_equiv [OF c assms(2)])
  then show ?thesis by (simp add: each_def)
qed

lemma do_transition_comm:
  "(case do_transition s a of None \<Rightarrow> None | Some s' \<Rightarrow> do_transition s' b)
   = (case do_transition s b of None \<Rightarrow> None | Some s' \<Rightarrow> do_transition s' a)"
proof (cases "a = b")
  case True
  then show ?thesis by (simp cong: option.case_cong)
next
  case False
  then show ?thesis
    by (auto simp: do_transition_def fun_upd_twist split: option.splits cell.splits)
qed

lemma do_commit_comm:
  "(case do_commit s a of None \<Rightarrow> None | Some s' \<Rightarrow> do_commit s' b)
   = (case do_commit s b of None \<Rightarrow> None | Some s' \<Rightarrow> do_commit s' a)"
proof (cases "a = b")
  case True
  then show ?thesis by (simp cong: option.case_cong)
next
  case False
  then show ?thesis
    by (auto simp: do_commit_def Let_def fun_upd_twist split: option.splits cell.splits)
qed

lemma update_final_input_cell:
  assumes "update_final_input st (Some p) = Some st'"
  shows "\<exists>a fi. st p = Some (Obj a) \<and> st' = st(p \<mapsto> Obj (a\<lparr>final_input := fi\<rparr>))"
proof -
  from assms obtain a where a: "st p = Some (Obj a)"
    by (auto simp: update_final_input_def split: option.splits cell.splits)
  from update_final_input_frame [OF assms] a self_upd [of st p a, OF a] show ?thesis
    by (metis cell.inject option.inject)
qed

lemma ufi_iter_other:
  assumes "st p = Some (Obj a)" and "p \<noteq> q"
  shows "ufi_iter (st(p \<mapsto> Obj (a\<lparr>final_input := x\<rparr>))) q i
           = map_option (\<lambda>s. s(p \<mapsto> Obj (a\<lparr>final_input := x\<rparr>))) (ufi_iter st q i)"
  using assms input_value_store_upd [of st p a x, OF assms(1)]
  by (auto simp: ufi_iter_def fun_upd_twist split: option.splits cell.splits)

lemma ufi_loop_other:
  assumes "st p = Some (Obj a)" and "p \<noteq> q"
  shows "ufi_loop k (st(p \<mapsto> Obj (a\<lparr>final_input := x\<rparr>))) q i
           = map_option (\<lambda>s. s(p \<mapsto> Obj (a\<lparr>final_input := x\<rparr>))) (ufi_loop k st q i)"
  using assms(1)
proof (induction k arbitrary: st i)
  case 0
  then show ?case by simp
next
  case (Suc k)
  note it = ufi_iter_other [of st p a q x i, OF Suc.prems assms(2)]
  show ?case
  proof (cases "ufi_iter st q i")
    case None
    with it have "ufi_iter (st(p \<mapsto> Obj (a\<lparr>final_input := x\<rparr>))) q i = None" by simp
    with None show ?thesis by (simp only: ufi_loop.simps option.case option.map)
  next
    case (Some s1)
    then obtain b where "st q = Some (Obj b)"
      by (auto simp: ufi_iter_def split: option.splits cell.splits)
    from ufi_iter_frame [OF Some this] assms(2) Suc.prems have "s1 p = Some (Obj a)" by auto
    note ih = Suc.IH [of s1 "Suc i", OF this]
    from it Some have "ufi_iter (st(p \<mapsto> Obj (a\<lparr>final_input := x\<rparr>))) q i
        = Some (s1(p \<mapsto> Obj (a\<lparr>final_input := x\<rparr>)))" by simp
    with Some ih show ?thesis by (simp only: ufi_loop.simps option.case)
  qed
qed

lemma update_final_input_other:
  assumes "st p = Some (Obj a)" and "p \<noteq> q"
  shows "update_final_input (st(p \<mapsto> Obj (a\<lparr>final_input := x\<rparr>))) (Some q)
           = map_option (\<lambda>s. s(p \<mapsto> Obj (a\<lparr>final_input := x\<rparr>))) (update_final_input st (Some q))"
proof -
  let ?c = "Obj (a\<lparr>final_input := x\<rparr>)"
  have same: "(st(p \<mapsto> ?c)) q = st q" using assms(2) by simp
  show ?thesis
  proof (cases "\<exists>b f. st q = Some (Obj b) \<and> final_input b = Some f \<and> ma_n b \<noteq> 0
      \<and> manual_input b \<noteq> None \<and> incoming_connections b \<noteq> None
      \<and> n_words (ma_n b) \<le> length f")
    case False
    have "update_final_input st (Some q) = (if \<exists>b. st q = Some (Obj b) \<and> (ma_n b = 0 \<or>
        final_input b = None \<or> manual_input b = None \<or> incoming_connections b = None)
        then Some st else None)"
      using False by (auto simp: update_final_input_def split: option.splits cell.splits)
    moreover have "update_final_input (st(p \<mapsto> ?c)) (Some q) =
        (if \<exists>b. st q = Some (Obj b) \<and> (ma_n b = 0 \<or>
        final_input b = None \<or> manual_input b = None \<or> incoming_connections b = None)
        then Some (st(p \<mapsto> ?c)) else None)"
      using False assms(2)
      by (auto simp: update_final_input_def split: option.splits cell.splits)
    ultimately show ?thesis by simp
  next
    case True
    then obtain b f where b: "st q = Some (Obj b)" and f: "final_input b = Some f"
      and ne: "ma_n b \<noteq> 0" "manual_input b \<noteq> None" "incoming_connections b \<noteq> None"
      and le: "n_words (ma_n b) \<le> length f" by blast
    let ?b0 = "b\<lparr>final_input :=
            Some (replicate (n_words (ma_n b)) 0 @ drop (n_words (ma_n b)) f)\<rparr>"
    have l: "update_final_input st (Some q) = ufi_loop (ma_n b) (st(q \<mapsto> Obj ?b0)) q 0"
      using b f ne le by (auto simp: update_final_input_def)
    have r: "update_final_input (st(p \<mapsto> ?c)) (Some q)
        = ufi_loop (ma_n b) ((st(p \<mapsto> ?c))(q \<mapsto> Obj ?b0)) q 0"
      using b f ne le same by (auto simp: update_final_input_def)
    have tw: "(st(p \<mapsto> ?c))(q \<mapsto> Obj ?b0) = (st(q \<mapsto> Obj ?b0))(p \<mapsto> ?c)"
      using assms(2) by (simp add: fun_upd_twist)
    from assms have "(st(q \<mapsto> Obj ?b0)) p = Some (Obj a)" by simp
    note ufi_loop_other [of "st(q \<mapsto> Obj ?b0)" p a q "ma_n b" x 0, OF this assms(2)]
    then show ?thesis by (simp only: l r tw)
  qed
qed

lemma update_final_input_comm:
  "(case update_final_input s a of None \<Rightarrow> None | Some s' \<Rightarrow> update_final_input s' b)
   = (case update_final_input s b of None \<Rightarrow> None | Some s' \<Rightarrow> update_final_input s' a)"
proof (cases "a = b \<or> a = None \<or> b = None")
  case True
  then show ?thesis
    by (auto simp: update_final_input_def cong: option.case_cong split: option.splits)
next
  case False
  then obtain p q where pq: "a = Some p" "b = Some q" "p \<noteq> q" by auto
  from pq(3) have qp: "q \<noteq> p" by simp
  show ?thesis
  proof (cases "update_final_input s (Some p)")
    case None
    show ?thesis
    proof (cases "update_final_input s (Some q)")
      case n2: None
      with None show ?thesis unfolding pq(1,2) by simp
    next
      case s2: (Some s2)
      from update_final_input_cell [OF s2] obtain d y where
        d: "s q = Some (Obj d)" and s2': "s2 = s(q \<mapsto> Obj (d\<lparr>final_input := y\<rparr>))" by blast
      from update_final_input_other [of s q d p y, OF d qp] None s2'
      have "update_final_input s2 (Some p) = None" by simp
      with None s2 show ?thesis unfolding pq(1,2) by simp
    qed
  next
    case (Some s1)
    from update_final_input_cell [OF Some] obtain c x where
      c: "s p = Some (Obj c)" and s1: "s1 = s(p \<mapsto> Obj (c\<lparr>final_input := x\<rparr>))" by blast
    show ?thesis
    proof (cases "update_final_input s (Some q)")
      case None
      from update_final_input_other [of s p c q x, OF c pq(3)] None s1
      have "update_final_input s1 (Some q) = None" by simp
      with None Some show ?thesis unfolding pq(1,2) by simp
    next
      case s2: (Some s2)
      from update_final_input_cell [OF s2] obtain d y where
        d: "s q = Some (Obj d)" and s2': "s2 = s(q \<mapsto> Obj (d\<lparr>final_input := y\<rparr>))" by blast
      from update_final_input_other [of s p c q x, OF c pq(3)] s2 s1
      have e1: "update_final_input s1 (Some q) = Some (s2(p \<mapsto> Obj (c\<lparr>final_input := x\<rparr>)))"
        by simp
      from update_final_input_other [of s q d p y, OF d qp] Some s2'
      have e2: "update_final_input s2 (Some p) = Some (s1(q \<mapsto> Obj (d\<lparr>final_input := y\<rparr>)))"
        by simp
      have "s2(p \<mapsto> Obj (c\<lparr>final_input := x\<rparr>)) = s1(q \<mapsto> Obj (d\<lparr>final_input := y\<rparr>))"
        unfolding s1 s2' using pq(3) by (simp add: fun_upd_twist)
      with e1 e2 Some s2 show ?thesis unfolding pq(1,2) by simp
    qed
  qed
qed

lemma ma_step_permute:
  assumes "mset ps' = mset ps" and "None \<notin> set ps"
  shows "ma_step st (Some ps') = ma_step st (Some ps)"
proof -
  from assms(1) have set: "set ps' = set ps" by (rule mset_eq_setD)
  with assms(2) have n': "None \<notin> set ps'" by simp
  from assms(1) have len: "length ps' = length ps" by (rule mset_eq_length)
  have i: "step_inputs st ps' = step_inputs st ps"
    using each_permute [of update_final_input ps' ps, OF update_final_input_comm assms(1)]
    by (simp add: step_inputs_each [OF n'] step_inputs_each [OF assms(2)])
  have t: "step_transitions s ps' = step_transitions s ps" for s
    using each_permute [of do_transition ps' ps, OF do_transition_comm assms(1)]
    by (simp add: step_transitions_each)
  have c: "step_commit s ps' = step_commit s ps" for s
    using each_permute [of do_commit ps' ps, OF do_commit_comm assms(1)]
    by (simp add: step_commit_each)
  show ?thesis
    by (simp only: ma_step_def i t c len option.case)
qed

section \<open>Two runs of a step from heaps that agree\<close>

lemma simD: "sim F N st st' \<Longrightarrow> csim (q \<in> F) (q \<in> N) (st q) (st' q)"
  by (simp add: sim_def)

lemma csim_None: "csim f n None d = (d = None)"
  by (simp add: csim_def)

lemma csim_Freed: "csim f n (Some Freed) d = (d = Some Freed)"
  by (simp add: csim_def)

lemma csim_ObjE:
  assumes "csim f n (Some (Obj a)) d"
  obtains b where "d = Some (Obj b)" and "base_eq a b"
    and "final_input a = final_input b \<or> (\<not> f \<and> fi_ok a \<and> fi_ok b)"
    and "next_state a = next_state b \<or> (\<not> n \<and> ns_ok a \<and> ns_ok b)"
  using assms by (auto simp: csim_def split: option.splits cell.splits)

lemma csim_Obj:
  "csim f n (Some (Obj a)) (Some (Obj b)) =
     (base_eq a b \<and> (final_input a = final_input b \<or> (\<not> f \<and> fi_ok a \<and> fi_ok b))
      \<and> (next_state a = next_state b \<or> (\<not> n \<and> ns_ok a \<and> ns_ok b)))"
  by (simp add: csim_def)

lemma sim_read_magic: "sim F N st st' \<Longrightarrow> read_magic st q = read_magic st' q"
  using simD [of F N st st' q]
  by (cases "st q"; cases "st' q")
     (auto simp: read_magic_def csim_def base_eq_def split: cell.splits)

lemma manual_value_base: "base_eq a b \<Longrightarrow> manual_value a i = manual_value b i"
  by (simp add: manual_value_def base_eq_def)

lemma sim_input_value:
  assumes "sim F N st st'" and "base_eq a b"
  shows "input_value st a i = input_value st' b i"
proof (cases "incoming_connections a")
  case None
  with assms(2) show ?thesis by (simp add: input_value_def base_eq_def)
next
  case (Some ic)
  with assms(2) have icb: "incoming_connections b = Some ic" by (simp add: base_eq_def)
  show ?thesis
  proof (cases "source_automaton (ic ! i)")
    case None
    with Some icb manual_value_base [OF assms(2)] show ?thesis
      by (simp add: input_value_def)
  next
    case q: (Some q)
    note rm = sim_read_magic [OF assms(1), of q]
    note mv = manual_value_base [OF assms(2), of i]
    show ?thesis
    proof (cases "st q")
      case None
      with simD [OF assms(1), of q] have "st' q = None" by (simp add: csim_None)
      with None Some icb q rm mv show ?thesis
        by (simp add: input_value_def read_magic_def)
    next
      case c: (Some c)
      show ?thesis
      proof (cases c)
        case Freed
        with c simD [OF assms(1), of q] have "st' q = Some Freed" by (simp add: csim_Freed)
        with Freed c Some icb q mv show ?thesis
          by (simp add: input_value_def read_magic_def)
      next
        case (Obj x)
        with c simD [OF assms(1), of q] obtain y where y: "st' q = Some (Obj y)"
          and xy: "base_eq x y" by (auto elim: csim_ObjE)
        from xy have "magic x = magic y" "output x = output y" "ma_m x = ma_m y"
          by (simp_all add: base_eq_def)
        with Obj c y Some icb q mv show ?thesis
          by (simp add: input_value_def read_magic_def cong: option.case_cong if_cong)
      qed
    qed
  qed
qed

lemma ufi_iter_alt:
  "ufi_iter st p i =
     (case st p of
        Some (Obj a) \<Rightarrow> map_option (\<lambda>fi. st(p \<mapsto> Obj (a\<lparr>final_input := fi\<rparr>))) (iter_fi st a i)
      | _ \<Rightarrow> None)"
proof (cases "st p")
  case None
  then show ?thesis by (simp add: ufi_iter_def)
next
  case (Some c)
  show ?thesis
  proof (cases c)
    case Freed
    with Some show ?thesis by (simp add: ufi_iter_def)
  next
    case (Obj a)
    from self_upd [of st p a] Some Obj
    have "st(p \<mapsto> Obj (a\<lparr>final_input := final_input a\<rparr>)) = st" by simp
    with Some Obj show ?thesis
      by (auto simp: ufi_iter_def iter_fi_def split: option.splits)
  qed
qed

lemma ns_ok_fi [simp]: "ns_ok (a\<lparr>final_input := x\<rparr>) = ns_ok a"
  by (simp add: ns_ok_def pure_t_def)

lemma base_eq_fi [simp]: "base_eq (a\<lparr>final_input := x\<rparr>) (b\<lparr>final_input := y\<rparr>) = base_eq a b"
  by (simp add: base_eq_def)

lemma sim_upd_fi:
  assumes "sim F N st st'" and "st p = Some (Obj a)" and "st' p = Some (Obj b)"
  shows "sim F N (st(p \<mapsto> Obj (a\<lparr>final_input := x\<rparr>))) (st'(p \<mapsto> Obj (b\<lparr>final_input := x\<rparr>)))"
  unfolding sim_def
proof
  fix q
  from simD [OF assms(1), of q] assms(2,3)
  show "csim (q \<in> F) (q \<in> N) ((st(p \<mapsto> Obj (a\<lparr>final_input := x\<rparr>))) q)
          ((st'(p \<mapsto> Obj (b\<lparr>final_input := x\<rparr>))) q)"
    by (cases "q = p") (auto simp: csim_Obj)
qed

lemma sim_iter_fi:
  assumes "sim F N st st'" and "base_eq a b" and "final_input a = final_input b"
  shows "iter_fi st a i = iter_fi st' b i"
  using sim_input_value [OF assms(1,2), of i] assms(3)
  by (simp add: iter_fi_def cong: option.case_cong if_cong)

lemma sim_ufi_iter:
  assumes "sim F N st st'" and "p \<in> F"
  shows "rel_option (sim F N) (ufi_iter st p i) (ufi_iter st' p i)"
proof (cases "st p")
  case None
  with simD [OF assms(1), of p] have "st' p = None" by (simp add: csim_None)
  with None show ?thesis by (simp add: ufi_iter_alt)
next
  case (Some c)
  show ?thesis
  proof (cases c)
    case Freed
    with Some simD [OF assms(1), of p] have "st' p = Some Freed" by (simp add: csim_Freed)
    with Some Freed show ?thesis by (simp add: ufi_iter_alt)
  next
    case (Obj a)
    with Some simD [OF assms(1), of p] assms(2) obtain b where b: "st' p = Some (Obj b)"
      and ab: "base_eq a b" and fi: "final_input a = final_input b"
      by (auto elim: csim_ObjE)
    from Some Obj have a: "st p = Some (Obj a)" by simp
    note eq = sim_iter_fi [OF assms(1) ab fi, of i]
    show ?thesis
    proof (cases "iter_fi st a i")
      case None
      with eq have "iter_fi st' b i = None" by simp
      with None a b show ?thesis by (simp add: ufi_iter_alt)
    next
      case x: (Some x)
      with eq have "iter_fi st' b i = Some x" by simp
      with x a b sim_upd_fi [OF assms(1) a b, of x] show ?thesis
        by (simp add: ufi_iter_alt)
    qed
  qed
qed

lemma sim_ufi_loop:
  "sim F N st st' \<Longrightarrow> p \<in> F \<Longrightarrow> rel_option (sim F N) (ufi_loop k st p i) (ufi_loop k st' p i)"
proof (induction k arbitrary: st st' i)
  case 0
  then show ?case by simp
next
  case (Suc k)
  from sim_ufi_iter [OF Suc.prems, of i] show ?case
  proof (cases rule: option.rel_cases)
    case None
    then show ?thesis by simp
  next
    case (Some s s')
    with Suc.IH [OF Some(3) Suc.prems(2), of "Suc i"] show ?thesis by simp
  qed
qed

lemma sim_upd_fi_insert:
  assumes "sim F N st st'" and "st p = Some (Obj a)" and "st' p = Some (Obj b)"
  shows "sim (insert p F) N (st(p \<mapsto> Obj (a\<lparr>final_input := x\<rparr>)))
           (st'(p \<mapsto> Obj (b\<lparr>final_input := x\<rparr>)))"
  unfolding sim_def
proof
  fix q
  from simD [OF assms(1), of q] assms(2,3)
  show "csim (q \<in> insert p F) (q \<in> N) ((st(p \<mapsto> Obj (a\<lparr>final_input := x\<rparr>))) q)
          ((st'(p \<mapsto> Obj (b\<lparr>final_input := x\<rparr>))) q)"
    by (cases "q = p") (auto simp: csim_Obj)
qed

lemma sim_insert_equal:
  assumes "sim F N st st'" and "st p = Some (Obj a)" and "st' p = Some (Obj b)"
    and "final_input a = final_input b"
  shows "sim (insert p F) N st st'"
proof -
  from self_upd [of st p a, OF assms(2)] self_upd [of st' p b, OF assms(3)] assms(4)
  have "st = st(p \<mapsto> Obj (a\<lparr>final_input := final_input a\<rparr>))"
    "st' = st'(p \<mapsto> Obj (b\<lparr>final_input := final_input a\<rparr>))" by simp_all
  with sim_upd_fi_insert [OF assms(1,2,3), of "final_input a"] show ?thesis by simp
qed

lemma sim_update_final_input:
  assumes "sim F N st st'"
  shows "rel_option (sim (insert p F) N)
           (update_final_input st (Some p)) (update_final_input st' (Some p))"
proof (cases "st p")
  case None
  with simD [OF assms, of p] have "st' p = None" by (simp add: csim_None)
  with None show ?thesis by (simp add: update_final_input_def)
next
  case (Some c)
  show ?thesis
  proof (cases c)
    case Freed
    with Some simD [OF assms, of p] have "st' p = Some Freed" by (simp add: csim_Freed)
    with Some Freed show ?thesis by (simp add: update_final_input_def)
  next
    case (Obj a)
    with Some have a: "st p = Some (Obj a)" by simp
    with simD [OF assms, of p] obtain b where b: "st' p = Some (Obj b)"
      and ab: "base_eq a b"
      and fi: "final_input a = final_input b \<or> (fi_ok a \<and> fi_ok b)"
      by (auto elim: csim_ObjE)
    from ab have same: "ma_n b = ma_n a" "manual_input b = manual_input a"
      "incoming_connections b = incoming_connections a" by (simp_all add: base_eq_def)
    let ?early = "ma_n a = 0 \<or> manual_input a = None \<or> incoming_connections a = None"
    let ?nw = "n_words (ma_n a)"
    show ?thesis
    proof (cases "?early \<or> final_input a = None \<and> final_input b = None")
      case True
      with fi have e: "final_input a = final_input b" by (auto simp: fi_ok_def same)
      from True e a b same have "update_final_input st (Some p) = Some st"
        "update_final_input st' (Some p) = Some st'"
        by (auto simp: update_final_input_def)
      with sim_insert_equal [OF assms a b e] show ?thesis by simp
    next
      case False
      with fi obtain f g where f: "final_input a = Some f" and g: "final_input b = Some g"
        and z: "replicate ?nw 0 @ drop ?nw f = replicate ?nw 0 @ drop ?nw g"
        and len: "(?nw \<le> length f) = (?nw \<le> length g)"
        by (cases "final_input a"; cases "final_input b")
           (auto simp: fi_ok_def same buf_len_def)
      let ?z = "Some (replicate ?nw 0 @ drop ?nw f)"
      show ?thesis
      proof (cases "?nw \<le> length f")
        case le: True
        from False f a le have l: "update_final_input st (Some p) =
            ufi_loop (ma_n a) (st(p \<mapsto> Obj (a\<lparr>final_input := ?z\<rparr>))) p 0"
          by (auto simp: update_final_input_def)
        from False g b le len same z have r: "update_final_input st' (Some p) =
            ufi_loop (ma_n a) (st'(p \<mapsto> Obj (b\<lparr>final_input := ?z\<rparr>))) p 0"
          by (auto simp: update_final_input_def)
        from sim_ufi_loop [OF sim_upd_fi_insert [OF assms a b, of ?z], of p "ma_n a" 0]
        show ?thesis unfolding l r by simp
      next
        case gt: False
        with False f g a b len same show ?thesis
          by (auto simp: update_final_input_def)
      qed
    qed
  qed
qed

lemma fi_ok_ns [simp]: "fi_ok (a\<lparr>next_state := x\<rparr>) = fi_ok a"
  by (simp add: fi_ok_def)

lemma base_eq_ns [simp]: "base_eq (a\<lparr>next_state := x\<rparr>) (b\<lparr>next_state := y\<rparr>) = base_eq a b"
  by (simp add: base_eq_def)

lemma sim_do_transition:
  assumes "sim F N st st'" and "p \<in> F"
  shows "rel_option (sim F (insert p N)) (do_transition st (Some p)) (do_transition st' (Some p))"
proof (cases "st p")
  case None
  with simD [OF assms(1), of p] have "st' p = None" by (simp add: csim_None)
  with None show ?thesis by (simp add: do_transition_def)
next
  case (Some c)
  show ?thesis
  proof (cases c)
    case Freed
    with Some simD [OF assms(1), of p] have "st' p = Some Freed" by (simp add: csim_Freed)
    with Some Freed show ?thesis by (simp add: do_transition_def)
  next
    case (Obj a)
    with Some have a: "st p = Some (Obj a)" by simp
    with simD [OF assms(1), of p] assms(2) obtain b where b: "st' p = Some (Obj b)"
      and ab: "base_eq a b" and fi: "final_input a = final_input b"
      and fr: "final_input a = final_input b \<or> (p \<notin> F \<and> fi_ok a \<and> fi_ok b)"
      and ns: "next_state a = next_state b \<or> (ns_ok a \<and> ns_ok b)"
      by (auto elim: csim_ObjE)
    from ab have same: "ma_n b = ma_n a" "ma_s b = ma_s a" "ma_t b = ma_t a" "state b = state a"
      by (simp_all add: base_eq_def)
    have upd: "sim F (insert p N) (st(p \<mapsto> Obj (a\<lparr>next_state := x\<rparr>)))
        (st'(p \<mapsto> Obj (b\<lparr>next_state := x\<rparr>)))" for x
      unfolding sim_def
    proof
      fix q
      from simD [OF assms(1), of q] a b ab fi
      show "csim (q \<in> F) (q \<in> insert p N) ((st(p \<mapsto> Obj (a\<lparr>next_state := x\<rparr>))) q)
          ((st'(p \<mapsto> Obj (b\<lparr>next_state := x\<rparr>))) q)"
        by (cases "q = p") (auto simp: csim_Obj)
    qed
    show ?thesis
    proof (cases "state a")
      case None
      with a b same show ?thesis by (simp add: do_transition_def split: option.splits)
    next
      case cs: (Some cs)
      show ?thesis
      proof (cases "next_state a = None \<and> next_state b = None")
        case True
        with a b show ?thesis by (simp add: do_transition_def)
      next
        case False
        with ns obtain x y where x: "next_state a = Some x" and y: "next_state b = Some y"
          and xy: "x = y \<or> (length x = n_words (ma_s a) \<and> length y = n_words (ma_s a)
              \<and> pure_t a)"
          by (cases "next_state a"; cases "next_state b")
             (auto simp: ns_ok_def buf_len_def same)
        from xy have "ma_t a x (final_input a) cs (ma_n a) (ma_s a)
            = ma_t a y (final_input a) cs (ma_n a) (ma_s a)"
          unfolding pure_t_def by blast
        with a b x y cs same fi upd show ?thesis
          by (simp add: do_transition_def)
      qed
    qed
  qed
qed

lemma fi_ok_commit [simp]:
  "fi_ok (a\<lparr>state := x, next_state := y, output := z\<rparr>) = fi_ok a"
  by (simp add: fi_ok_def)

lemma sim_do_commit:
  assumes "sim F N st st'" and "p \<in> N"
  shows "rel_option (sim F N) (do_commit st (Some p)) (do_commit st' (Some p))"
proof (cases "st p")
  case None
  with simD [OF assms(1), of p] have "st' p = None" by (simp add: csim_None)
  with None show ?thesis by (simp add: do_commit_def)
next
  case (Some c)
  show ?thesis
  proof (cases c)
    case Freed
    with Some simD [OF assms(1), of p] have "st' p = Some Freed" by (simp add: csim_Freed)
    with Some Freed show ?thesis by (simp add: do_commit_def)
  next
    case (Obj a)
    with Some have a: "st p = Some (Obj a)" by simp
    with simD [OF assms(1), of p] assms(2) obtain b where b: "st' p = Some (Obj b)"
      and ab: "base_eq a b" and ns: "next_state a = next_state b"
      and fr: "final_input a = final_input b \<or> (p \<notin> F \<and> fi_ok a \<and> fi_ok b)"
      by (auto elim: csim_ObjE)
    have upd: "sim F N
        (st(p \<mapsto> Obj (a\<lparr>state := next_state a, next_state := state a, output := z\<rparr>)))
        (st'(p \<mapsto> Obj (b\<lparr>state := next_state b, next_state := state b, output := z\<rparr>)))" for z
      unfolding sim_def
    proof
      fix q
      from simD [OF assms(1), of q] a b ab ns fr
      show "csim (q \<in> F) (q \<in> N)
          ((st(p \<mapsto> Obj (a\<lparr>state := next_state a, next_state := state a, output := z\<rparr>))) q)
          ((st'(p \<mapsto> Obj (b\<lparr>state := next_state b, next_state := state b, output := z\<rparr>))) q)"
        by (cases "q = p") (auto simp: csim_Obj base_eq_def)
    qed
    from ab have same: "ma_m b = ma_m a" "ma_s b = ma_s a" "ma_y b = ma_y a"
      "output b = output a" by (simp_all add: base_eq_def)
    show ?thesis
    proof (cases "output a")
      case None
      with a b same show ?thesis by (simp add: do_commit_def Let_def)
    next
      case out: (Some out)
      show ?thesis
      proof (cases "next_state a")
        case None
        with ns have "next_state b = None" by simp
        with None a b same out show ?thesis by (simp add: do_commit_def Let_def)
      next
        case cs: (Some cs)
        with ns have nsb: "next_state b = Some cs" by simp
        from upd [of "Some (ma_y a out cs (ma_m a) (ma_s a))"] cs nsb
        have "sim F N
          (st(p \<mapsto> Obj (a\<lparr>state := Some cs, next_state := state a,
                 output := Some (ma_y a out cs (ma_m a) (ma_s a))\<rparr>)))
          (st'(p \<mapsto> Obj (b\<lparr>state := Some cs, next_state := state b,
                 output := Some (ma_y a out cs (ma_m a) (ma_s a))\<rparr>)))"
          by simp
        with a b same out cs nsb show ?thesis
          by (simp add: do_commit_def Let_def)
      qed
    qed
  qed
qed

lemma addrs_Nil [simp]: "addrs [] = {}"
  by (simp add: addrs_def)

lemma addrs_Cons [simp]: "addrs (Some p # ps) = insert p (addrs ps)"
  by (auto simp: addrs_def)

lemma sim_each_inputs:
  "None \<notin> set ps \<Longrightarrow> sim F N st st' \<Longrightarrow>
   rel_option (sim (F \<union> addrs ps) N)
     (each update_final_input ps (Some st)) (each update_final_input ps (Some st'))"
proof (induction ps arbitrary: F st st')
  case Nil
  then show ?case by simp
next
  case (Cons a ps)
  then obtain p where a: "a = Some p" by (cases a) auto
  from sim_update_final_input [OF Cons.prems(2), of p] show ?case
  proof (cases rule: option.rel_cases)
    case None
    with a show ?thesis by simp
  next
    case (Some s s')
    from Cons.prems(1) have "None \<notin> set ps" by simp
    from Cons.IH [OF this Some(3)] Some(1,2) a show ?thesis by simp
  qed
qed

lemma sim_each_transitions:
  "None \<notin> set ps \<Longrightarrow> addrs ps \<subseteq> F \<Longrightarrow> sim F N st st' \<Longrightarrow>
   rel_option (sim F (N \<union> addrs ps))
     (each do_transition ps (Some st)) (each do_transition ps (Some st'))"
proof (induction ps arbitrary: N st st')
  case Nil
  then show ?case by simp
next
  case (Cons a ps)
  then obtain p where a: "a = Some p" by (cases a) auto
  with Cons.prems(2) have p: "p \<in> F" and sub: "addrs ps \<subseteq> F" by simp_all
  from sim_do_transition [OF Cons.prems(3) p] show ?case
  proof (cases rule: option.rel_cases)
    case None
    with a show ?thesis by simp
  next
    case (Some s s')
    from Cons.prems(1) have "None \<notin> set ps" by simp
    from Cons.IH [OF this sub Some(3)] Some(1,2) a show ?thesis by simp
  qed
qed

lemma sim_each_commit:
  "None \<notin> set ps \<Longrightarrow> addrs ps \<subseteq> N \<Longrightarrow> sim F N st st' \<Longrightarrow>
   rel_option (sim F N) (each do_commit ps (Some st)) (each do_commit ps (Some st'))"
proof (induction ps arbitrary: st st')
  case Nil
  then show ?case by simp
next
  case (Cons a ps)
  then obtain p where a: "a = Some p" by (cases a) auto
  with Cons.prems(2) have p: "p \<in> N" and sub: "addrs ps \<subseteq> N" by simp_all
  from sim_do_commit [OF Cons.prems(3) p] show ?case
  proof (cases rule: option.rel_cases)
    case None
    with a show ?thesis by simp
  next
    case (Some s s')
    from Cons.prems(1) have "None \<notin> set ps" by simp
    from Cons.IH [OF this sub Some(3)] Some(1,2) a show ?thesis by simp
  qed
qed

lemma sim_agree:
  assumes "sim F N st st'"
  shows "agree st st'"
  unfolding agree_def
proof
  fix q
  from simD [OF assms, of q]
  show "case st q of
          None \<Rightarrow> st' q = None
        | Some Freed \<Rightarrow> st' q = Some Freed
        | Some (Obj a) \<Rightarrow> (case st' q of Some (Obj b) \<Rightarrow> base_eq a b | _ \<Rightarrow> False)"
    by (auto simp: csim_def split: option.splits cell.splits)
qed

lemma sim_ma_step:
  assumes "None \<notin> set ps" and "sim {} {} st st'"
  shows "rel_option (\<lambda>(r, s) (r', s'). r = r' \<and> agree s s')
           (ma_step st (Some ps)) (ma_step st' (Some ps))"
proof (cases "ps = []")
  case True
  with sim_agree [OF assms(2)] show ?thesis by (simp add: ma_step_def)
next
  case False
  have ms: "ma_step s (Some ps) =
      (case each update_final_input ps (Some s) of
         None \<Rightarrow> None
       | Some s1 \<Rightarrow>
           (case each do_transition ps (Some s1) of
              None \<Rightarrow> None
            | Some s2 \<Rightarrow>
                (case each do_commit ps (Some s2) of
                   None \<Rightarrow> None
                 | Some s3 \<Rightarrow> Some (Inr (), s3))))" for s
    using False
    by (simp add: ma_step_def step_inputs_each [OF assms(1)] step_transitions_each
          step_commit_each split: option.splits)
  from sim_each_inputs [OF assms, of ] show ?thesis
  proof (cases rule: option.rel_cases)
    case None
    then show ?thesis by (simp add: ms)
  next
    case i: (Some s1 s1')
    from sim_each_transitions [OF assms(1) _ i(3)] have
      "rel_option (sim ({} \<union> addrs ps) ({} \<union> addrs ps))
         (each do_transition ps (Some s1)) (each do_transition ps (Some s1'))" by simp
    then show ?thesis
    proof (cases rule: option.rel_cases)
      case None
      with i show ?thesis by (simp add: ms)
    next
      case t: (Some s2 s2')
      from sim_each_commit [OF assms(1) _ t(3)] have
        "rel_option (sim ({} \<union> addrs ps) ({} \<union> addrs ps))
           (each do_commit ps (Some s2)) (each do_commit ps (Some s2'))" by simp
      then show ?thesis
      proof (cases rule: option.rel_cases)
        case None
        with i t show ?thesis by (simp add: ms)
      next
        case c: (Some s3 s3')
        with i t sim_agree [OF c(3)] show ?thesis by (simp add: ms)
      qed
    qed
  qed
qed

lemma moore_ok_fi_ok: "moore_ok a \<Longrightarrow> fi_ok a"
  by (auto simp: moore_ok_def fi_ok_def buf_len_def split: option.splits if_splits)

lemma heap_sim:
  assumes "same_network st st'" and "heap_ok st" and "heap_ok st'"
  shows "sim {} {} st st'"
  unfolding sim_def
proof
  fix q
  from assms(1) have n: "case st q of
            None \<Rightarrow> st' q = None
          | Some Freed \<Rightarrow> st' q = Some Freed
          | Some (Obj a) \<Rightarrow>
              (case st' q of
                 Some (Obj b) \<Rightarrow>
                   ma_n a = ma_n b \<and> ma_m a = ma_m b \<and> ma_s a = ma_s b \<and> ma_t a = ma_t b
                   \<and> ma_y a = ma_y b \<and> magic a = magic b \<and> state a = state b
                   \<and> manual_input a = manual_input b
                   \<and> incoming_connections a = incoming_connections b
               | _ \<Rightarrow> False)"
    unfolding same_network_def by blast
  show "csim (q \<in> {}) (q \<in> {}) (st q) (st' q)"
  proof (cases "st q")
    case None
    with n show ?thesis by (simp add: csim_None)
  next
    case (Some c)
    show ?thesis
    proof (cases c)
      case Freed
      with Some n show ?thesis by (simp add: csim_Freed)
    next
      case (Obj a)
      with Some n obtain b where b: "st' q = Some (Obj b)"
        and e: "ma_n a = ma_n b" "ma_m a = ma_m b" "ma_s a = ma_s b" "ma_t a = ma_t b"
          "ma_y a = ma_y b" "magic a = magic b" "state a = state b"
          "manual_input a = manual_input b" "incoming_connections a = incoming_connections b"
        by (auto split: option.splits cell.splits)
      from assms(2) Some Obj have ca: "cell_ok a" by (simp add: heap_ok_def)
      from assms(3) b have cb: "cell_ok b" by (simp add: heap_ok_def)
      from ca cb e have "output a = output b" by (simp add: cell_ok_def)
      with e have "base_eq a b" by (simp add: base_eq_def)
      moreover from ca cb have "fi_ok a" "fi_ok b" by (simp_all add: cell_ok_def moore_ok_fi_ok)
      moreover from ca cb have "ns_ok a" "ns_ok b"
        by (simp_all add: cell_ok_def ns_ok_def moore_ok_def)
      ultimately show ?thesis using Some Obj b by (simp add: csim_Obj)
    qed
  qed
qed

text \<open>
  Claim C8. Take two heaps with the same automata, identical current states, identical
  manual inputs and identical connection slots, all automata live and well formed with
  a transition function that is a function of input and state and an output buffer that
  holds the output of the state, and two arrays with the same non-NULL elements in any
  order. Then \<^verbatim>\<open>ma_step\<close> on the one heap and array and \<^verbatim>\<open>ma_step\<close> on the other either
  are both undefined or return the same value and leave heaps that agree on every
  automaton: same state buffer, same output buffer. The contents of the next-state and
  final-input buffers before the call, the lists of dependents and the order of the
  array have no influence.
\<close>

theorem step_deterministic:
  assumes "same_network st st'" and "heap_ok st" and "heap_ok st'"
    and "mset ps' = mset ps" and "None \<notin> set ps"
  shows "rel_option (\<lambda>(r, s) (r', s'). r = r' \<and> agree s s')
           (ma_step st (Some ps)) (ma_step st' (Some ps'))"
proof -
  from ma_step_permute [OF assms(4,5)] have "ma_step st' (Some ps') = ma_step st' (Some ps)" .
  with sim_ma_step [OF assms(5) heap_sim [OF assms(1,2,3)]] show ?thesis by simp
qed

lemma pure_latch: "ma_t a = latch_t \<Longrightarrow> pure_t a"
  by (simp add: pure_t_def latch_t_def)

lemma ex_cells_ok:
  "cell_ok ex_T" "cell_ok ex_S"
  "cell_ok (ex_T\<lparr>next_state := Some [7], final_input := Some [1]\<rparr>)"
  "cell_ok (ex_S\<lparr>next_state := Some [9]\<rparr>)"
proof -
  have nw: "n_words (Suc 0) = Suc 0" by (simp add: n_words_def size_add_def)
  have m: "moore_ok (ex_T\<lparr>next_state := Some [7], final_input := Some [1]\<rparr>)"
    "moore_ok (ex_S\<lparr>next_state := Some [9]\<rparr>)"
    by (simp_all add: moore_ok_def ex_T_def ex_S_def buf_len_def nw SIZE_MAX_def MOORE_MAGIC_def)
  have p: "pure_t ex_T" "pure_t ex_S"
    "pure_t (ex_T\<lparr>next_state := Some [7], final_input := Some [1]\<rparr>)"
    "pure_t (ex_S\<lparr>next_state := Some [9]\<rparr>)"
    by (rule pure_latch, simp add: ex_T_def ex_S_def)+
  have o: "output ex_T = Some (ma_y ex_T (replicate (n_words (ma_m ex_T)) 0)
        (the (state ex_T)) (ma_m ex_T) (ma_s ex_T))"
    "output ex_S = Some (ma_y ex_S (replicate (n_words (ma_m ex_S)) 0)
        (the (state ex_S)) (ma_m ex_S) (ma_s ex_S))"
    by (simp_all add: ex_T_def ex_S_def nw identity_func_def Let_def)
  from ex_T_ok p(1) o(1) show "cell_ok ex_T" by (simp add: cell_ok_def)
  from ex_S_ok p(2) o(2) show "cell_ok ex_S" by (simp add: cell_ok_def)
  from m(1) p(3) o(1) show "cell_ok (ex_T\<lparr>next_state := Some [7], final_input := Some [1]\<rparr>)"
    by (simp add: cell_ok_def)
  from m(2) p(4) o(2) show "cell_ok (ex_S\<lparr>next_state := Some [9]\<rparr>)"
    by (simp add: cell_ok_def)
qed

lemma ex_heaps_ok: "heap_ok ex_store" "heap_ok ex_store'"
  using ex_cells_ok by (auto simp: heap_ok_def ex_store_def ex_store'_def split: if_splits)

lemma ex_same_network: "same_network ex_store ex_store'"
  by (simp add: same_network_def ex_store_def ex_store'_def)

lemma ex_step:
  "ma_step ex_store (Some [Some 10, Some 20]) =
     Some (Inr (), ex_store
       (10 \<mapsto> Obj (ex_T\<lparr>final_input := Some [1], state := Some [1], output := Some [1]\<rparr>),
        20 \<mapsto> Obj (ex_S\<lparr>next_state := Some [1]\<rparr>)))"
proof -
  let ?T1 = "ex_T\<lparr>final_input := Some [1]\<rparr>"
  let ?T2 = "ex_T\<lparr>final_input := Some [1], next_state := Some [1]\<rparr>"
  let ?T3 = "ex_T\<lparr>final_input := Some [1], state := Some [1], output := Some [1]\<rparr>"
  let ?S3 = "ex_S\<lparr>next_state := Some [1]\<rparr>"
  let ?st1 = "ex_store(10 \<mapsto> Obj ?T1)"
  let ?st2 = "ex_store(10 \<mapsto> Obj ?T2, 20 \<mapsto> Obj ?S3)"
  let ?st3 = "ex_store(10 \<mapsto> Obj ?T3, 20 \<mapsto> Obj ?S3)"
  have nw: "n_words (Suc 0) = Suc 0" by (simp add: n_words_def size_add_def)
  have u2: "update_final_input ?st1 (Some 20) = Some ?st1"
    by (simp add: update_final_input_def ex_store_def ex_S_def)
  have i: "step_inputs ex_store [Some 10, Some 20] = Some (True, ?st1)"
    by (simp add: ex_update_final_input u2)
  have t: "step_transitions ?st1 [Some 10, Some 20] = Some ?st2"
    by (simp add: do_transition_def ex_store_def ex_T_def ex_S_def latch_t_def)
  have c: "step_commit ?st2 [Some 10, Some 20] = Some ?st3"
    by (simp add: do_commit_def ex_store_def ex_T_def ex_S_def identity_func_def nw Let_def
          fun_upd_twist)
  show ?thesis
    unfolding ma_step_def
    by (simp add: i t c del: step_inputs.simps step_transitions.simps step_commit.simps)
qed

theorem step_deterministic_witness:
  "same_network ex_store ex_store' \<and> heap_ok ex_store \<and> heap_ok ex_store'
   \<and> mset [Some 20, Some (10::nat)] = mset [Some 10, Some 20]
   \<and> None \<notin> set [Some (10::nat), Some 20]
   \<and> ma_step ex_store (Some [Some 10, Some 20]) =
       Some (Inr (), ex_store
         (10 \<mapsto> Obj (ex_T\<lparr>final_input := Some [1], state := Some [1], output := Some [1]\<rparr>),
          20 \<mapsto> Obj (ex_S\<lparr>next_state := Some [1]\<rparr>)))
   \<and> rel_option (\<lambda>(r, s) (r', s'). r = r' \<and> agree s s')
        (ma_step ex_store (Some [Some 10, Some 20]))
        (ma_step ex_store' (Some [Some 20, Some 10]))"
proof -
  have m: "mset [Some 20, Some (10::nat)] = mset [Some 10, Some 20]" by simp
  have n: "None \<notin> set [Some (10::nat), Some 20]" by simp
  from step_deterministic [OF ex_same_network ex_heaps_ok m n]
  have "rel_option (\<lambda>(r, s) (r', s'). r = r' \<and> agree s s')
        (ma_step ex_store (Some [Some 10, Some 20]))
        (ma_step ex_store' (Some [Some 20, Some 10]))" .
  with ex_same_network ex_heaps_ok m n ex_step show ?thesis by (intro conjI)
qed

section \<open>A step reads the outputs from before the step\<close>

lemma iter_fi_length:
  assumes "iter_fi st a i = Some x"
  shows "map_option length x = map_option length (final_input a)"
proof (cases "input_value st a i")
  case None
  with assms show ?thesis by (simp add: iter_fi_def)
next
  case (Some v)
  show ?thesis
  proof (cases "v = 0")
    case True
    with Some assms show ?thesis by (simp add: iter_fi_def)
  next
    case False
    show ?thesis
    proof (cases "final_input a")
      case None
      with Some False assms show ?thesis by (simp add: iter_fi_def)
    next
      case fi: (Some fi)
      with Some False assms have "map_option length x = Some (length fi)"
        by (auto simp: iter_fi_def wr_def rd_def split: if_splits)
      with fi show ?thesis by simp
    qed
  qed
qed

lemma ufi_iter_len:
  assumes "ufi_iter st p i = Some st'" and "st p = Some (Obj a)"
  shows "\<exists>fi. st' = st(p \<mapsto> Obj (a\<lparr>final_input := fi\<rparr>))
           \<and> map_option length fi = map_option length (final_input a)"
  using assms iter_fi_length [of st a i]
  by (auto simp: ufi_iter_alt)

lemma ufi_loop_len:
  "ufi_loop k st p i = Some st' \<Longrightarrow> st p = Some (Obj a) \<Longrightarrow>
   \<exists>fi. st' = st(p \<mapsto> Obj (a\<lparr>final_input := fi\<rparr>))
     \<and> map_option length fi = map_option length (final_input a)"
proof (induction k arbitrary: st a i)
  case 0
  from 0(1) have e: "st' = st" by simp
  from self_upd [of st p a, OF 0(2)]
  have "st' = st(p \<mapsto> Obj (a\<lparr>final_input := final_input a\<rparr>))" unfolding e .
  then show ?case by blast
next
  case (Suc k)
  from Suc.prems(1) obtain st1 where s1: "ufi_iter st p i = Some st1"
    and l: "ufi_loop k st1 p (Suc i) = Some st'"
    by (auto split: option.splits)
  from ufi_iter_len [OF s1 Suc.prems(2)] obtain fi1 where
    e1: "st1 = st(p \<mapsto> Obj (a\<lparr>final_input := fi1\<rparr>))"
    and l1: "map_option length fi1 = map_option length (final_input a)" by blast
  from e1 have "st1 p = Some (Obj (a\<lparr>final_input := fi1\<rparr>))" by simp
  from Suc.IH [OF l this] obtain fi where
    e2: "st' = st1(p \<mapsto> Obj (a\<lparr>final_input := fi1, final_input := fi\<rparr>))"
    and l2: "map_option length fi = map_option length (final_input (a\<lparr>final_input := fi1\<rparr>))"
    by blast
  from e1 e2 have "st' = st(p \<mapsto> Obj (a\<lparr>final_input := fi\<rparr>))" by simp
  moreover from l1 l2 have "map_option length fi = map_option length (final_input a)" by simp
  ultimately show ?case by blast
qed

lemma update_final_input_len:
  assumes "update_final_input st (Some p) = Some st'"
  shows "\<exists>a fi. st p = Some (Obj a) \<and> st' = st(p \<mapsto> Obj (a\<lparr>final_input := fi\<rparr>))
           \<and> map_option length fi = map_option length (final_input a)"
proof -
  from assms obtain a where a: "st p = Some (Obj a)"
    by (auto simp: update_final_input_def split: option.splits cell.splits)
  show ?thesis
  proof (cases "st' = st")
    case True
    from self_upd [of st p a, OF a]
    have "st' = st(p \<mapsto> Obj (a\<lparr>final_input := final_input a\<rparr>))" unfolding True .
    with a show ?thesis by blast
  next
    case False
    from assms False a obtain f where f: "final_input a = Some f"
      and le: "n_words (ma_n a) \<le> length f"
      and l: "ufi_loop (ma_n a)
              (st(p \<mapsto> Obj (a\<lparr>final_input :=
                 Some (replicate (n_words (ma_n a)) 0 @ drop (n_words (ma_n a)) f)\<rparr>))) p 0 = Some st'"
      by (auto simp: update_final_input_def split: option.splits if_splits)
    let ?z = "Some (replicate (n_words (ma_n a)) 0 @ drop (n_words (ma_n a)) f)"
    have "(st(p \<mapsto> Obj (a\<lparr>final_input := ?z\<rparr>))) p = Some (Obj (a\<lparr>final_input := ?z\<rparr>))"
      by simp
    from ufi_loop_len [OF l this] obtain fi where
      e: "st' = (st(p \<mapsto> Obj (a\<lparr>final_input := ?z\<rparr>)))(p \<mapsto> Obj (a\<lparr>final_input := ?z, final_input := fi\<rparr>))"
      and ln: "map_option length fi = map_option length (final_input (a\<lparr>final_input := ?z\<rparr>))"
      by blast
    from e have "st' = st(p \<mapsto> Obj (a\<lparr>final_input := fi\<rparr>))" by simp
    moreover from ln f le have "map_option length fi = map_option length (final_input a)"
      by simp
    ultimately show ?thesis using a by blast
  qed
qed

lemma fi_frame_refl: "fi_frame st st"
  by (simp add: fi_frame_def)

lemma fi_frame_cell:
  assumes "fi_frame st s" and "st q = Some (Obj a)"
  shows "\<exists>fi. s q = Some (Obj (a\<lparr>final_input := fi\<rparr>))
           \<and> map_option length fi = map_option length (final_input a)"
proof -
  from assms(1) have "s q = st q
        \<or> (\<exists>a fi. st q = Some (Obj a) \<and> s q = Some (Obj (a\<lparr>final_input := fi\<rparr>))
              \<and> map_option length fi = map_option length (final_input a))"
    unfolding fi_frame_def by blast
  then show ?thesis
  proof
    assume "s q = st q"
    with assms(2) have "s q = Some (Obj (a\<lparr>final_input := final_input a\<rparr>))" by simp
    then show ?thesis by blast
  next
    assume "\<exists>a fi. st q = Some (Obj a) \<and> s q = Some (Obj (a\<lparr>final_input := fi\<rparr>))
              \<and> map_option length fi = map_option length (final_input a)"
    with assms(2) show ?thesis by auto
  qed
qed

lemma fi_frame_other:
  assumes "fi_frame st s" and "st q = None \<or> st q = Some Freed"
  shows "s q = st q"
  using assms unfolding fi_frame_def by (metis cell.distinct(1) option.distinct(1) option.inject)

lemma fi_frame_step:
  assumes "fi_frame st s" and "update_final_input s (Some p) = Some s'"
  shows "fi_frame st s'"
  unfolding fi_frame_def
proof
  fix q
  from update_final_input_len [OF assms(2)] obtain b fi where
    b: "s p = Some (Obj b)" and s': "s' = s(p \<mapsto> Obj (b\<lparr>final_input := fi\<rparr>))"
    and len: "map_option length fi = map_option length (final_input b)" by blast
  show "s' q = st q
        \<or> (\<exists>a fi. st q = Some (Obj a) \<and> s' q = Some (Obj (a\<lparr>final_input := fi\<rparr>))
              \<and> map_option length fi = map_option length (final_input a))"
  proof (cases "q = p")
    case False
    with s' have "s' q = s q" by simp
    with assms(1) show ?thesis unfolding fi_frame_def by metis
  next
    case True
    show ?thesis
    proof (cases "st p")
      case None
      with fi_frame_other [OF assms(1), of p] b show ?thesis by simp
    next
      case (Some c)
      show ?thesis
      proof (cases c)
        case Freed
        with Some fi_frame_other [OF assms(1), of p] b show ?thesis by simp
      next
        case (Obj a)
        with Some have a: "st p = Some (Obj a)" by simp
        from fi_frame_cell [OF assms(1) a] b obtain x where
          bx: "b = a\<lparr>final_input := x\<rparr>"
          and lx: "map_option length x = map_option length (final_input a)" by auto
        from s' bx have "s' p = Some (Obj (a\<lparr>final_input := fi\<rparr>))" by simp
        moreover from len bx lx have "map_option length fi = map_option length (final_input a)"
          by simp
        ultimately show ?thesis using a True by blast
      qed
    qed
  qed
qed

lemma moore_ok_fi_len:
  "moore_ok a \<Longrightarrow> map_option length fi = map_option length (final_input a) \<Longrightarrow>
   moore_ok (a\<lparr>final_input := fi\<rparr>)"
  by (cases fi; cases "final_input a") (auto simp: moore_ok_def buf_len_def split: if_splits)

lemma source_ok_frame:
  assumes "fi_frame st s" and "source_ok st c"
  shows "source_ok s c"
proof (cases "source_automaton c")
  case None
  then show ?thesis by (simp add: source_ok_def)
next
  case (Some q)
  show ?thesis
  proof (cases "st q")
    case None
    with Some assms(2) show ?thesis by (simp add: source_ok_def)
  next
    case c: (Some cl)
    show ?thesis
    proof (cases cl)
      case Freed
      with c Some assms(2) show ?thesis by (simp add: source_ok_def)
    next
      case (Obj x)
      with c fi_frame_cell [OF assms(1), of q x] obtain fi where
        s: "s q = Some (Obj (x\<lparr>final_input := fi\<rparr>))"
        and l: "map_option length fi = map_option length (final_input x)" by auto
      from assms(2) Some c Obj have "magic x \<noteq> MOORE_MAGIC \<or> (moore_ok x \<and> ma_m x \<le> INDEX_LIMIT)"
        by (simp add: source_ok_def)
      with moore_ok_fi_len [OF _ l] s Some show ?thesis
        by (auto simp: source_ok_def)
    qed
  qed
qed

lemma resolved_bit_frame:
  assumes "fi_frame st s"
  shows "resolved_bit s (a\<lparr>final_input := x\<rparr>) i = resolved_bit st a i"
proof (cases "source_automaton (the (incoming_connections a) ! i)")
  case None
  then show ?thesis by (simp add: resolved_bit_def)
next
  case (Some q)
  show ?thesis
  proof (cases "st q")
    case None
    with fi_frame_other [OF assms, of q] Some show ?thesis by (simp add: resolved_bit_def)
  next
    case c: (Some cl)
    show ?thesis
    proof (cases cl)
      case Freed
      with c fi_frame_other [OF assms, of q] Some show ?thesis by (simp add: resolved_bit_def)
    next
      case (Obj y)
      with c fi_frame_cell [OF assms, of q y] obtain fi where
        "s q = Some (Obj (y\<lparr>final_input := fi\<rparr>))" by auto
      with c Obj Some show ?thesis by (simp add: resolved_bit_def)
    qed
  qed
qed

lemma each_inputs_untouched:
  assumes "None \<notin> set ps" and "each update_final_input ps (Some s) = Some s1"
    and "Some q \<notin> set ps"
  shows "s1 q = s q"
proof -
  from assms(1,2) have "step_inputs s ps = Some (True, s1)"
    by (simp add: step_inputs_each)
  from step_inputs_frame [OF this] assms(3) show ?thesis
    unfolding only_final_input_def by blast
qed

lemma each_inputs_resolved:
  assumes "None \<notin> set ps" and "fi_frame st s"
    and "each update_final_input ps (Some s) = Some s1"
    and "Some p \<in> set ps" and "st p = Some (Obj a)" and "moore_ok a"
    and "0 < ma_n a" and "ma_n a \<le> INDEX_LIMIT"
    and "list_all (source_ok st) (the (incoming_connections a))"
  shows "\<exists>fi. s1 p = Some (Obj (a\<lparr>final_input := Some fi\<rparr>))
           \<and> (\<forall>i. i < ma_n a \<longrightarrow> get_bit fi i = resolved_bit st a i)"
  using assms(1,2,3,4)
proof (induction ps arbitrary: s)
  case Nil
  then show ?case by simp
next
  case (Cons x ps)
  from Cons.prems(1) obtain r where x: "x = Some r" and nn: "None \<notin> set ps" by (cases x) auto
  from Cons.prems(3) x obtain s' where u: "update_final_input s (Some r) = Some s'"
    and rest: "each update_final_input ps (Some s') = Some s1"
    by (cases "update_final_input s (Some r)") simp_all
  from fi_frame_step [OF Cons.prems(2) u] have fr: "fi_frame st s'" .
  show ?case
  proof (cases "Some p \<in> set ps")
    case True
    from Cons.IH [OF nn fr rest True] show ?thesis .
  next
    case False
    with Cons.prems(4) x have rp: "r = p" by simp
    from fi_frame_cell [OF Cons.prems(2) assms(5)] obtain y where
      sp: "s p = Some (Obj (a\<lparr>final_input := y\<rparr>))"
      and ly: "map_option length y = map_option length (final_input a)" by blast
    let ?a = "a\<lparr>final_input := y\<rparr>"
    from moore_ok_fi_len [OF assms(6) ly] have ok: "moore_ok ?a" .
    have n: "0 < ma_n ?a" "ma_n ?a \<le> INDEX_LIMIT" using assms(7,8) by simp_all
    have srcs: "list_all (source_ok s) (the (incoming_connections ?a))"
      using assms(9) source_ok_frame [OF Cons.prems(2)] by (auto simp: list_all_iff)
    from update_final_input_resolved [of s p ?a, OF sp ok n srcs] obtain fi where
      r: "update_final_input s (Some p) = Some (s(p \<mapsto> Obj (?a\<lparr>final_input := Some fi\<rparr>)))"
      and b: "\<forall>i. i < ma_n ?a \<longrightarrow> get_bit fi i = resolved_bit s ?a i" by blast
    from r u rp have "s' p = Some (Obj (a\<lparr>final_input := Some fi\<rparr>))" by auto
    with each_inputs_untouched [OF nn rest False]
    have "s1 p = Some (Obj (a\<lparr>final_input := Some fi\<rparr>))" by simp
    moreover from b resolved_bit_frame [OF Cons.prems(2), where a = a and x = y]
    have "\<forall>i. i < ma_n a \<longrightarrow> get_bit fi i = resolved_bit st a i" by simp
    ultimately show ?thesis by blast
  qed
qed

lemma do_transition_final_input:
  assumes "do_transition s q = Some s'" and "s x = Some (Obj b)"
  shows "\<exists>b'. s' x = Some (Obj b') \<and> final_input b' = final_input b"
  using assms
  by (auto simp: do_transition_def split: option.splits cell.splits if_splits)

lemma do_commit_final_input:
  assumes "do_commit s q = Some s'" and "s x = Some (Obj b)"
  shows "\<exists>b'. s' x = Some (Obj b') \<and> final_input b' = final_input b"
  using assms
  by (auto simp: do_commit_def Let_def split: option.splits cell.splits if_splits)

lemma step_transitions_final_input:
  assumes "step_transitions s ps = Some s'" and "s x = Some (Obj b)"
  shows "\<exists>b'. s' x = Some (Obj b') \<and> final_input b' = final_input b"
  using assms
proof (induction ps arbitrary: s b)
  case Nil
  then show ?case by simp
next
  case (Cons q ps)
  from Cons.prems(1) obtain s1 where d: "do_transition s q = Some s1"
    and rest: "step_transitions s1 ps = Some s'"
    by (cases "do_transition s q") simp_all
  from do_transition_final_input [OF d Cons.prems(2)] obtain b1 where
    b1: "s1 x = Some (Obj b1)" "final_input b1 = final_input b" by blast
  from Cons.IH [OF rest b1(1)] b1(2) show ?case by simp
qed

lemma step_commit_final_input:
  assumes "step_commit s ps = Some s'" and "s x = Some (Obj b)"
  shows "\<exists>b'. s' x = Some (Obj b') \<and> final_input b' = final_input b"
  using assms
proof (induction ps arbitrary: s b)
  case Nil
  then show ?case by simp
next
  case (Cons q ps)
  from Cons.prems(1) obtain s1 where d: "do_commit s q = Some s1"
    and rest: "step_commit s1 ps = Some s'"
    by (cases "do_commit s q") simp_all
  from do_commit_final_input [OF d Cons.prems(2)] obtain b1 where
    b1: "s1 x = Some (Obj b1)" "final_input b1 = final_input b" by blast
  from Cons.IH [OF rest b1(1)] b1(2) show ?case by simp
qed

lemma step_inputs_true_no_null:
  "step_inputs s ps = Some (True, s1) \<Longrightarrow> None \<notin> set ps"
proof (induction ps arbitrary: s)
  case Nil
  then show ?case by simp
next
  case (Cons x ps)
  show ?case
  proof (cases x)
    case None
    with Cons.prems show ?thesis by simp
  next
    case (Some r)
    with Cons.prems obtain s' where "update_final_input s (Some r) = Some s'"
      and "step_inputs s' ps = Some (True, s1)"
      by (cases "update_final_input s (Some r)") simp_all
    with Cons.IH Some show ?thesis by auto
  qed
qed

lemma step_reads_pre_step_outputs:
  assumes "ma_step st (Some ps) = Some (Inr (), st')"
    and "Some p \<in> set ps" and "st p = Some (Obj a)" and "moore_ok a"
    and "0 < ma_n a" and "ma_n a \<le> INDEX_LIMIT"
    and "list_all (source_ok st) (the (incoming_connections a))"
  shows "\<exists>b fi. st' p = Some (Obj b) \<and> final_input b = Some fi
           \<and> (\<forall>i. i < ma_n a \<longrightarrow> get_bit fi i = resolved_bit st a i)"
proof -
  from assms(1) obtain s1 s2 where
    i: "step_inputs st ps = Some (True, s1)"
    and t: "step_transitions s1 ps = Some s2"
    and c: "step_commit s2 ps = Some st'"
    by (auto simp: ma_step_def split: if_splits option.splits bool.splits prod.splits)
  from step_inputs_true_no_null [OF i] have nn: "None \<notin> set ps" .
  with i have e: "each update_final_input ps (Some st) = Some s1"
    by (simp add: step_inputs_each)
  from each_inputs_resolved [OF nn fi_frame_refl e assms(2-7)] obtain fi where
    s1: "s1 p = Some (Obj (a\<lparr>final_input := Some fi\<rparr>))"
    and b: "\<forall>i. i < ma_n a \<longrightarrow> get_bit fi i = resolved_bit st a i" by blast
  from step_transitions_final_input [OF t s1] obtain b2 where
    b2: "s2 p = Some (Obj b2)" "final_input b2 = Some fi" by auto
  from step_commit_final_input [OF c b2(1)] b2(2) obtain b3 where
    "st' p = Some (Obj b3)" "final_input b3 = Some fi" by auto
  with b show ?thesis by blast
qed

lemma ex_sources_ok: "list_all (source_ok ex_store) (the (incoming_connections ex_T))"
proof -
  have "ma_m ex_S \<le> INDEX_LIMIT" by (simp add: ex_S_def INDEX_LIMIT_def)
  with ex_S_ok have "source_ok ex_store \<lparr>source_automaton = Some 20, source_output_index = 0\<rparr>"
    by (simp add: source_ok_def ex_store_2)
  then show ?thesis by (simp add: ex_T_def)
qed

lemma ex_step_reads_pre_step_outputs:
  "\<exists>b fi. (ex_store
       (10 \<mapsto> Obj (ex_T\<lparr>final_input := Some [1], state := Some [1], output := Some [1]\<rparr>),
        20 \<mapsto> Obj (ex_S\<lparr>next_state := Some [1]\<rparr>))) 10 = Some (Obj b)
     \<and> final_input b = Some fi
     \<and> (\<forall>i. i < ma_n ex_T \<longrightarrow> get_bit fi i = resolved_bit ex_store ex_T i)"
proof -
  have n: "0 < ma_n ex_T" "ma_n ex_T \<le> INDEX_LIMIT" by (simp_all add: ex_T_def INDEX_LIMIT_def)
  have m: "Some 10 \<in> set [Some 10, Some 20]" by simp
  from step_reads_pre_step_outputs [OF ex_step m ex_store_1 ex_T_ok n ex_sources_ok]
  show ?thesis .
qed

end
